theory Spec2Isabelle
  imports Main "HOL-Library.AList"
begin

section \<open>Values, objects and the store\<close>

text \<open>
  The key utilities of \<^verbatim>\<open>src/queries/index.ts\<close> build object literals, keep references to
  them inside closures and later overwrite their properties in place. Objects therefore
  live in a store: an address names an object, \<^verbatim>\<open>obj.p = v\<close> rewrites the cell, and an
  object literal allocates a fresh cell. Properties are kept in insertion order, as the
  \<^verbatim>\<open>for ... in\<close> loop of the injector visits them (a property whose name is an
  array index would come first there; no object the factory builds has one).
\<close>

type_synonym addr = nat

datatype prim = Undefined | Null | Bool bool | Number int | Str string

text \<open>
  The closures the source creates, each with the variables it captures:
  the three key functions and the two \<^verbatim>\<open>invalidates\<close> functions capture
  \<^verbatim>\<open>entityName\<close>; the \<^verbatim>\<open>normalize\<close> callbacks capture the operation objects
  \<^verbatim>\<open>list\<close> and \<^verbatim>\<open>detail\<close> (by reference); the wrapper built by the injector captures
  \<^verbatim>\<open>originalFn\<close> and \<^verbatim>\<open>extra\<close> (by reference).
\<close>

datatype closure =
    DetailKey string
  | UpdateKey string
  | RemoveKey string
  | UpdateInvalidates string
  | RemoveInvalidates string
  | DetailNormalize addr
  | CreateNormalize addr addr
  | UpdateNormalize addr addr
  | RemoveNormalize addr addr
  | Wrapper closure addr

datatype val = Prim prim | Ref addr | Fn closure

datatype obj = Object "(string \<times> val) list" | Array "val list"

text \<open>
  What the cache engine sees of a key: its deep structure. Two keys name the same cache
  slot iff their structures are equal, whatever the order of their fields.
\<close>

datatype tree = TPrim prim | TFn closure | TArr "tree list" | TObj "string \<Rightarrow> tree option"

record state =
  cells :: "addr \<Rightarrow> obj option"
  next_addr :: addr
  cache :: "tree \<Rightarrow> val"

datatype error = TypeError | OutOfFuel | Dangling | Unmodelled

definition alloc :: "obj \<Rightarrow> state \<Rightarrow> addr \<times> state" where
  "alloc ob s = (next_addr s, s\<lparr>cells := (cells s)(next_addr s \<mapsto> ob), next_addr := Suc (next_addr s)\<rparr>)"

text \<open>Truthiness, as \<^verbatim>\<open>Boolean(v)\<close>, \<^verbatim>\<open>!v\<close> and \<^verbatim>\<open>v && ...\<close> read it.\<close>

fun truthy :: "val \<Rightarrow> bool" where
  "truthy (Prim Undefined) = False"
| "truthy (Prim Null) = False"
| "truthy (Prim (Bool b)) = b"
| "truthy (Prim (Number n)) = (n \<noteq> 0)"
| "truthy (Prim (Str s)) = (s \<noteq> [])"
| "truthy (Ref a) = True"
| "truthy (Fn f) = True"

text \<open>Decimal property names of array indices.\<close>

fun digit :: "nat \<Rightarrow> char" where
  "digit n = char_of (48 + n)"

function index_name :: "nat \<Rightarrow> string" where
  "index_name n = (if n < 10 then [digit n] else index_name (n div 10) @ [digit (n mod 10)])"
  by pat_completeness auto
termination
  by (relation "measure id") auto

definition indexed :: "val list \<Rightarrow> (string \<times> val) list" where
  "indexed xs = zip (map index_name [0..<length xs]) xs"

text \<open>
  The own enumerable properties an object spread \<^verbatim>\<open>{...v}\<close> copies: the fields of an
  object, the indexed elements of an array or of a string, nothing for any other value.
\<close>

definition own_props :: "state \<Rightarrow> val \<Rightarrow> (string \<times> val) list" where
  "own_props s v = (case v of
      Ref a \<Rightarrow> (case cells s a of
          Some (Object ps) \<Rightarrow> ps
        | Some (Array xs) \<Rightarrow> indexed xs
        | None \<Rightarrow> [])
    | Prim (Str cs) \<Rightarrow> indexed (map (\<lambda>c. Prim (Str [c])) cs)
    | _ \<Rightarrow> [])"

text \<open>
  \<^verbatim>\<open>{...a, ...b}\<close>: the properties of \<^verbatim>\<open>a\<close> are defined in order on a fresh object,
  then those of \<^verbatim>\<open>b\<close>; a name already present keeps its place and takes the new value.
\<close>

definition assign :: "(string \<times> 'v) list \<Rightarrow> (string \<times> 'v) list \<Rightarrow> (string \<times> 'v) list" where
  "assign target src = fold (\<lambda>(k, v). AList.update k v) src target"

definition spread :: "(string \<times> 'v) list \<Rightarrow> (string \<times> 'v) list \<Rightarrow> (string \<times> 'v) list" where
  "spread a b = assign (assign [] a) b"

text \<open>
  Property read \<^verbatim>\<open>v.name\<close>: a TypeError on \<^verbatim>\<open>undefined\<close> and \<^verbatim>\<open>null\<close>,
  \<^verbatim>\<open>undefined\<close> for a property the value does not own.
\<close>

definition get_prop :: "state \<Rightarrow> val \<Rightarrow> string \<Rightarrow> error + val" where
  "get_prop s v name = (case v of
      Prim Undefined \<Rightarrow> Inl TypeError
    | Prim Null \<Rightarrow> Inl TypeError
    | _ \<Rightarrow> (case map_of (own_props s v) name of Some w \<Rightarrow> Inr w | None \<Rightarrow> Inr (Prim Undefined)))"

text \<open>Property write \<^verbatim>\<open>obj[name] = v\<close> on the object at an address.\<close>

definition set_prop :: "addr \<Rightarrow> string \<Rightarrow> val \<Rightarrow> state \<Rightarrow> state" where
  "set_prop a name v s = (case cells s a of
      Some (Object ps) \<Rightarrow> s\<lparr>cells := (cells s)(a \<mapsto> Object (AList.update name v ps))\<rparr>
    | _ \<Rightarrow> s)"

definition has_own :: "state \<Rightarrow> addr \<Rightarrow> string \<Rightarrow> bool" where
  "has_own s a name = (map_of (own_props s (Ref a)) name \<noteq> None)"


text \<open>\<^verbatim>\<open>key && typeof key === 'object' && !Array.isArray(key)\<close>\<close>

definition is_plain_object :: "state \<Rightarrow> val \<Rightarrow> bool" where
  "is_plain_object s v = (case v of
      Ref a \<Rightarrow> (case cells s a of Some (Object ps) \<Rightarrow> True | _ \<Rightarrow> False)
    | _ \<Rightarrow> False)"

definition arg :: "val list \<Rightarrow> nat \<Rightarrow> val" where
  "arg args i = (if i < length args then args ! i else Prim Undefined)"

section \<open>The cache engine\<close>

text \<open>
  Modelled from the spec: the cache engine (the \<^verbatim>\<open>queryClient\<close> imported from
  \<^verbatim>\<open>src/queries/client\<close>) is an external collaborator. Section 6 of the specification
  gives it \<^verbatim>\<open>setEntry(key, updater)\<close>, \<^verbatim>\<open>invalidate(key, options)\<close> and
  \<^verbatim>\<open>cancel(key)\<close>, keyed by the deep structure of the key; an entry set to
  \<^verbatim>\<open>undefined\<close> is an absent entry. The cache is a function from key structures to
  values with \<^verbatim>\<open>undefined\<close> for an absent entry.
\<close>

fun sequence :: "('a \<Rightarrow> 'b option) \<Rightarrow> 'a list \<Rightarrow> 'b list option" where
  "sequence f [] = Some []"
| "sequence f (x # xs) = (case f x of
      None \<Rightarrow> None
    | Some y \<Rightarrow> (case sequence f xs of None \<Rightarrow> None | Some ys \<Rightarrow> Some (y # ys)))"

primrec reify :: "nat \<Rightarrow> state \<Rightarrow> val \<Rightarrow> tree option" where
  "reify 0 s v = None"
| "reify (Suc n) s v = (case v of
      Prim p \<Rightarrow> Some (TPrim p)
    | Fn f \<Rightarrow> Some (TFn f)
    | Ref a \<Rightarrow> (case cells s a of
          None \<Rightarrow> None
        | Some (Array xs) \<Rightarrow> (case sequence (reify n s) xs of
              None \<Rightarrow> None
            | Some ts \<Rightarrow> Some (TArr ts))
        | Some (Object ps) \<Rightarrow> (case sequence (reify n s) (map snd ps) of
              None \<Rightarrow> None
            | Some ts \<Rightarrow> Some (TObj (map_of (zip (map fst ps) ts))))))"

text \<open>
  Modelled from the spec: \<^verbatim>\<open>queryClient.setQueryData([key], updater)\<close> is the
  engine's \<^verbatim>\<open>setEntry\<close>; the entry of the slot named by the one-element array
  \<^verbatim>\<open>[key]\<close> becomes what the updater makes of the old entry.
\<close>

definition setQueryData ::
  "nat \<Rightarrow> val \<Rightarrow> (val \<Rightarrow> state \<Rightarrow> error + (val \<times> state)) \<Rightarrow> state \<Rightarrow> error + state" where
  "setQueryData n key updater s = (case reify n s key of
      None \<Rightarrow> Inl OutOfFuel
    | Some t \<Rightarrow> (case updater (cache s (TArr [t])) s of
          Inl e \<Rightarrow> Inl e
        | Inr (v, s1) \<Rightarrow> Inr (s1\<lparr>cache := (cache s1)(TArr [t] := v)\<rparr>)))"

text \<open>
  Modelled from the spec: the second argument given as a value rather than as an
  updater. A function passed there would be taken for an updater, which no call site of
  the source does with a function of this model.
\<close>

definition setQueryDataValue :: "nat \<Rightarrow> val \<Rightarrow> val \<Rightarrow> state \<Rightarrow> error + state" where
  "setQueryDataValue n key data s = (case data of
      Fn f \<Rightarrow> Inl Unmodelled
    | _ \<Rightarrow> setQueryData n key (\<lambda>old s1. Inr (data, s1)) s)"

section \<open>The normalize callbacks' updaters\<close>

text \<open>
  The receiver of \<^verbatim>\<open>old.map(...)\<close> and \<^verbatim>\<open>old.filter(...)\<close>: the elements of an array;
  any other value has no such method and the call raises a TypeError (an object that
  owns a callable property of that name is outside this model).
\<close>

definition receiver :: "state \<Rightarrow> val \<Rightarrow> string \<Rightarrow> error + val list" where
  "receiver s old method = (case old of
      Ref a \<Rightarrow> (case cells s a of
          Some (Array xs) \<Rightarrow> Inr xs
        | Some (Object ps) \<Rightarrow> (case map_of ps method of Some (Fn f) \<Rightarrow> Inl Unmodelled | _ \<Rightarrow> Inl TypeError)
        | None \<Rightarrow> Inl Dangling)
    | _ \<Rightarrow> Inl TypeError)"

text \<open>\<^verbatim>\<open>item.id === data.id\<close>, the left operand read first.\<close>

definition same_id :: "state \<Rightarrow> val \<Rightarrow> val \<Rightarrow> error + bool" where
  "same_id s item data = (case get_prop s item ''id'' of
      Inl e \<Rightarrow> Inl e
    | Inr i \<Rightarrow> (case get_prop s data ''id'' of Inl e \<Rightarrow> Inl e | Inr j \<Rightarrow> Inr (i = j)))"

fun map_items :: "(val \<Rightarrow> error + val) \<Rightarrow> val list \<Rightarrow> error + val list" where
  "map_items f [] = Inr []"
| "map_items f (x # xs) = (case f x of
      Inl e \<Rightarrow> Inl e
    | Inr y \<Rightarrow> (case map_items f xs of Inl e \<Rightarrow> Inl e | Inr ys \<Rightarrow> Inr (y # ys)))"

fun filter_items :: "(val \<Rightarrow> error + bool) \<Rightarrow> val list \<Rightarrow> error + val list" where
  "filter_items f [] = Inr []"
| "filter_items f (x # xs) = (case f x of
      Inl e \<Rightarrow> Inl e
    | Inr b \<Rightarrow> (case filter_items f xs of
          Inl e \<Rightarrow> Inl e
        | Inr ys \<Rightarrow> Inr (if b then x # ys else ys)))"

text \<open>
  \<^verbatim>\<open>(old) => { if (!old) return old;
     return old.map((item) => (item.id === data.id ? data : item)); }\<close>
\<close>

definition replace_item :: "val \<Rightarrow> val \<Rightarrow> state \<Rightarrow> error + (val \<times> state)" where
  "replace_item data old s = (if \<not> truthy old then Inr (old, s)
     else (case receiver s old ''map'' of
         Inl e \<Rightarrow> Inl e
       | Inr xs \<Rightarrow> (case map_items (\<lambda>item. case same_id s item data of
                                 Inl e \<Rightarrow> Inl e
                               | Inr b \<Rightarrow> Inr (if b then data else item)) xs of
             Inl e \<Rightarrow> Inl e
           | Inr ys \<Rightarrow> (case alloc (Array ys) s of (r, s1) \<Rightarrow> Inr (Ref r, s1)))))"

text \<open>
  \<^verbatim>\<open>(old) => { if (!old) return [data]; return [...old, data]; }\<close>: an array and a
  string are iterable, any other truthy value is not.
\<close>

definition append_item :: "val \<Rightarrow> val \<Rightarrow> state \<Rightarrow> error + (val \<times> state)" where
  "append_item data old s = (if \<not> truthy old
     then (case alloc (Array [data]) s of (r, s1) \<Rightarrow> Inr (Ref r, s1))
     else (case old of
         Ref a \<Rightarrow> (case cells s a of
             Some (Array xs) \<Rightarrow> (case alloc (Array (xs @ [data])) s of (r, s1) \<Rightarrow> Inr (Ref r, s1))
           | Some (Object ps) \<Rightarrow> Inl TypeError
           | None \<Rightarrow> Inl Dangling)
       | Prim (Str cs) \<Rightarrow>
           (case alloc (Array (map (\<lambda>c. Prim (Str [c])) cs @ [data])) s of (r, s1) \<Rightarrow> Inr (Ref r, s1))
       | _ \<Rightarrow> Inl TypeError))"

text \<open>
  \<^verbatim>\<open>(old) => { if (!old) return old;
     return old.filter((item) => item.id !== data.id); }\<close>
\<close>

definition drop_item :: "val \<Rightarrow> val \<Rightarrow> state \<Rightarrow> error + (val \<times> state)" where
  "drop_item data old s = (if \<not> truthy old then Inr (old, s)
     else (case receiver s old ''filter'' of
         Inl e \<Rightarrow> Inl e
       | Inr xs \<Rightarrow> (case filter_items (\<lambda>item. case same_id s item data of
                                 Inl e \<Rightarrow> Inl e
                               | Inr b \<Rightarrow> Inr (\<not> b)) xs of
             Inl e \<Rightarrow> Inl e
           | Inr ys \<Rightarrow> (case alloc (Array ys) s of (r, s1) \<Rightarrow> Inr (Ref r, s1)))))"


section \<open>Calling the closures\<close>

text \<open>
  \<^verbatim>\<open>const resolveKey = (key, ...args) =>
     typeof key === 'function' ? key(...args) : key;\<close>
  The function call is the parameter \<open>callf\<close>.
\<close>

definition resolveKey ::
  "(closure \<Rightarrow> val list \<Rightarrow> state \<Rightarrow> error + (val \<times> state)) \<Rightarrow> val \<Rightarrow> val list \<Rightarrow> state
     \<Rightarrow> error + (val \<times> state)" where
  "resolveKey callf key args s = (case key of Fn f \<Rightarrow> callf f args s | _ \<Rightarrow> Inr (key, s))"

text \<open>
  \<^verbatim>\<open>queryClient.setQueryData([resolveKey(list.queryKey)], updater)\<close>, the first statement
  of each normalize callback; \<^verbatim>\<open>list\<close> is the captured operation object, read when the
  callback runs.
\<close>

definition update_list ::
  "(closure \<Rightarrow> val list \<Rightarrow> state \<Rightarrow> error + (val \<times> state)) \<Rightarrow> nat \<Rightarrow> addr
     \<Rightarrow> (val \<Rightarrow> state \<Rightarrow> error + (val \<times> state)) \<Rightarrow> state \<Rightarrow> error + state" where
  "update_list callf n list updater s = (case get_prop s (Ref list) ''queryKey'' of
      Inl e \<Rightarrow> Inl e
    | Inr k \<Rightarrow> (case resolveKey callf k [] s of
          Inl e \<Rightarrow> Inl e
        | Inr (key, s1) \<Rightarrow> setQueryData n key updater s1))"

text \<open>
  \<^verbatim>\<open>queryClient.setQueryData([resolveKey(detail.queryKey, data.id)], v)\<close>, the second
  statement of the create, update and remove callbacks.
\<close>

definition set_detail ::
  "(closure \<Rightarrow> val list \<Rightarrow> state \<Rightarrow> error + (val \<times> state)) \<Rightarrow> nat \<Rightarrow> addr
     \<Rightarrow> val \<Rightarrow> val \<Rightarrow> state \<Rightarrow> error + state" where
  "set_detail callf n detail data v s = (case get_prop s (Ref detail) ''queryKey'' of
      Inl e \<Rightarrow> Inl e
    | Inr k \<Rightarrow> (case get_prop s data ''id'' of
          Inl e \<Rightarrow> Inl e
        | Inr i \<Rightarrow> (case resolveKey callf k [i] s of
              Inl e \<Rightarrow> Inl e
            | Inr (key, s1) \<Rightarrow> setQueryDataValue n key v s1)))"

text \<open>
  A call \<^verbatim>\<open>f(...args)\<close> of a closure. The fuel bounds the depth of nested calls:
  a wrapper calls the function it wraps, and a normalize callback calls whatever
  function it finds under \<^verbatim>\<open>queryKey\<close>.
\<close>

primrec call :: "nat \<Rightarrow> closure \<Rightarrow> val list \<Rightarrow> state \<Rightarrow> error + (val \<times> state)" where
  "call 0 f args s = Inl OutOfFuel"
| "call (Suc n) f args s = (case f of
      DetailKey entityName \<Rightarrow>
        (case alloc (Object [(''entity'', Prim (Str entityName)), (''method'', Prim (Str ''detail'')),
                             (''id'', arg args 0)]) s of
           (k, s1) \<Rightarrow> Inr (Ref k, s1))
    | UpdateKey entityName \<Rightarrow>
        (case alloc (Object [(''entity'', Prim (Str entityName)), (''method'', Prim (Str ''update'')),
                             (''id'', arg args 0)]) s of
           (k, s1) \<Rightarrow> Inr (Ref k, s1))
    | RemoveKey entityName \<Rightarrow>
        (case alloc (Object [(''entity'', Prim (Str entityName)), (''method'', Prim (Str ''remove'')),
                             (''id'', arg args 0)]) s of
           (k, s1) \<Rightarrow> Inr (Ref k, s1))
    | UpdateInvalidates entityName \<Rightarrow>
        (case alloc (Object [(''entity'', Prim (Str entityName)), (''id'', arg args 0)]) s of
           (k1, s1) \<Rightarrow>
        (case alloc (Object [(''entity'', Prim (Str entityName)), (''method'', Prim (Str ''list''))]) s1 of
           (k2, s2) \<Rightarrow>
        (case alloc (Array [Ref k1, Ref k2]) s2 of
           (r, s3) \<Rightarrow> Inr (Ref r, s3))))
    | RemoveInvalidates entityName \<Rightarrow>
        (case alloc (Object [(''entity'', Prim (Str entityName)), (''id'', arg args 0)]) s of
           (k1, s1) \<Rightarrow>
        (case alloc (Object [(''entity'', Prim (Str entityName)), (''method'', Prim (Str ''list''))]) s1 of
           (k2, s2) \<Rightarrow>
        (case alloc (Array [Ref k1, Ref k2]) s2 of
           (r, s3) \<Rightarrow> Inr (Ref r, s3))))
    | DetailNormalize list \<Rightarrow>
        (case update_list (call n) n list (replace_item (arg args 0)) s of
           Inl e \<Rightarrow> Inl e
         | Inr s1 \<Rightarrow> Inr (Prim Undefined, s1))
    | CreateNormalize list detail \<Rightarrow>
        (case update_list (call n) n list (append_item (arg args 0)) s of
           Inl e \<Rightarrow> Inl e
         | Inr s1 \<Rightarrow> (case set_detail (call n) n detail (arg args 0) (arg args 0) s1 of
               Inl e \<Rightarrow> Inl e
             | Inr s2 \<Rightarrow> Inr (Prim Undefined, s2)))
    | UpdateNormalize list detail \<Rightarrow>
        (case update_list (call n) n list (replace_item (arg args 0)) s of
           Inl e \<Rightarrow> Inl e
         | Inr s1 \<Rightarrow> (case set_detail (call n) n detail (arg args 0) (arg args 0) s1 of
               Inl e \<Rightarrow> Inl e
             | Inr s2 \<Rightarrow> Inr (Prim Undefined, s2)))
    | RemoveNormalize list detail \<Rightarrow>
        (case update_list (call n) n list (drop_item (arg args 0)) s of
           Inl e \<Rightarrow> Inl e
         | Inr s1 \<Rightarrow> (case set_detail (call n) n detail (arg args 0) (Prim Undefined) s1 of
               Inl e \<Rightarrow> Inl e
             | Inr s2 \<Rightarrow> Inr (Prim Undefined, s2)))
    | Wrapper originalFn extra \<Rightarrow>
        (case call n originalFn args s of
           Inl e \<Rightarrow> Inl e
         | Inr (key, s1) \<Rightarrow>
             (if is_plain_object s1 key
              then (case alloc (Object (spread (own_props s1 key) (own_props s1 (Ref extra)))) s1 of
                      (m, s2) \<Rightarrow> Inr (Ref m, s2))
              else Inr (key, s1))))"

text \<open>A method call \<^verbatim>\<open>obj.name(...args)\<close>.\<close>

definition invoke :: "nat \<Rightarrow> val \<Rightarrow> string \<Rightarrow> val list \<Rightarrow> state \<Rightarrow> error + (val \<times> state)" where
  "invoke n ob name args s = (case get_prop s ob name of
      Inl e \<Rightarrow> Inl e
    | Inr (Fn f) \<Rightarrow> call n f args s
    | Inr _ \<Rightarrow> Inl TypeError)"

section \<open>The CRUD factory\<close>

text \<open>
  \<^verbatim>\<open>createQueryGroupCRUD(entityName)\<close>: six operation objects, each literal allocated
  in the order the source evaluates it, and the group object that holds them.
\<close>

definition createQueryGroupCRUD :: "string \<Rightarrow> state \<Rightarrow> val \<times> state" where
  "createQueryGroupCRUD entityName s =
    (case alloc (Object [(''entity'', Prim (Str entityName))]) s of (k_all, s1) \<Rightarrow>
    (case alloc (Object [(''queryKey'', Ref k_all)]) s1 of (all, s2) \<Rightarrow>
    (case alloc (Object [(''entity'', Prim (Str entityName)), (''method'', Prim (Str ''list''))]) s2 of
       (k_list, s3) \<Rightarrow>
    (case alloc (Object [(''queryKey'', Ref k_list), (''type'', Prim (Str ''query''))]) s3 of
       (list, s4) \<Rightarrow>
    (case alloc (Object [(''queryKey'', Fn (DetailKey entityName)), (''type'', Prim (Str ''query'')),
                         (''normalize'', Fn (DetailNormalize list))]) s4 of
       (detail, s5) \<Rightarrow>
    (case alloc (Object [(''entity'', Prim (Str entityName)), (''method'', Prim (Str ''create''))]) s5 of
       (k_create, s6) \<Rightarrow>
    (case alloc (Object [(''entity'', Prim (Str entityName)), (''method'', Prim (Str ''list''))]) s6 of
       (i_create, s7) \<Rightarrow>
    (case alloc (Object [(''queryKey'', Ref k_create), (''invalidates'', Ref i_create),
                         (''type'', Prim (Str ''mutation'')),
                         (''normalize'', Fn (CreateNormalize list detail))]) s7 of
       (create, s8) \<Rightarrow>
    (case alloc (Object [(''queryKey'', Fn (UpdateKey entityName)),
                         (''invalidates'', Fn (UpdateInvalidates entityName)),
                         (''type'', Prim (Str ''mutation'')),
                         (''normalize'', Fn (UpdateNormalize list detail))]) s8 of
       (update, s9) \<Rightarrow>
    (case alloc (Object [(''queryKey'', Fn (RemoveKey entityName)),
                         (''invalidates'', Fn (RemoveInvalidates entityName)),
                         (''type'', Prim (Str ''mutation'')),
                         (''normalize'', Fn (RemoveNormalize list detail))]) s9 of
       (remove, s10) \<Rightarrow>
    (case alloc (Object [(''all'', Ref all), (''list'', Ref list), (''detail'', Ref detail),
                         (''create'', Ref create), (''update'', Ref update),
                         (''remove'', Ref remove)]) s10 of
       (queries, s11) \<Rightarrow> (Ref queries, s11))))))))))))"

section \<open>The key injector\<close>

text \<open>\<^verbatim>\<open>obj.map(process)\<close>: the elements are processed in order.\<close>

fun array_map ::
  "(val \<Rightarrow> state \<Rightarrow> error + (val \<times> state)) \<Rightarrow> val list \<Rightarrow> state \<Rightarrow> error + (val list \<times> state)" where
  "array_map f [] s = Inr ([], s)"
| "array_map f (x # xs) s = (case f x s of
      Inl e \<Rightarrow> Inl e
    | Inr (y, s1) \<Rightarrow> (case array_map f xs s1 of
          Inl e \<Rightarrow> Inl e
        | Inr (ys, s2) \<Rightarrow> Inr (y # ys, s2)))"

text \<open>
  \<^verbatim>\<open>for (const prop in obj) {
     if (Object.prototype.hasOwnProperty.call(obj, prop)) obj[prop] = process(obj[prop]); }\<close>
  over the property names of the object at address \<open>a\<close>; each value is read when its
  turn comes.
\<close>

fun for_in ::
  "(val \<Rightarrow> state \<Rightarrow> error + (val \<times> state)) \<Rightarrow> addr \<Rightarrow> string list \<Rightarrow> state \<Rightarrow> error + state" where
  "for_in f a [] s = Inr s"
| "for_in f a (prop # props) s =
     (if has_own s a prop
      then (case get_prop s (Ref a) prop of
          Inl e \<Rightarrow> Inl e
        | Inr v \<Rightarrow> (case f v s of
              Inl e \<Rightarrow> Inl e
            | Inr (w, s1) \<Rightarrow> for_in f a props (set_prop a prop w s1)))
      else for_in f a props s)"

text \<open>
  The inner function \<^verbatim>\<open>process\<close> of \<^verbatim>\<open>inyectKeysToQueries\<close>, which captures
  \<^verbatim>\<open>extra\<close>. The fuel bounds the depth of the recursion, which follows references
  and does not end on a cyclic structure.
\<close>

primrec process :: "nat \<Rightarrow> addr \<Rightarrow> val \<Rightarrow> state \<Rightarrow> error + (val \<times> state)" where
  "process 0 extra ob s = Inl OutOfFuel"
| "process (Suc n) extra ob s = (case ob of
      Ref a \<Rightarrow> (case cells s a of
          None \<Rightarrow> Inl Dangling
        | Some (Array xs) \<Rightarrow> (case array_map (process n extra) xs s of
              Inl e \<Rightarrow> Inl e
            | Inr (ys, s1) \<Rightarrow> (case alloc (Array ys) s1 of (r, s2) \<Rightarrow> Inr (Ref r, s2)))
        | Some (Object ps) \<Rightarrow>
            (case for_in (process n extra) a (map fst ps)
                    (case map_of ps ''queryKey'' of
                       None \<Rightarrow> s
                     | Some (Fn originalFn) \<Rightarrow>
                         set_prop a ''queryKey'' (Fn (Wrapper originalFn extra)) s
                     | Some (Ref k) \<Rightarrow>
                         (case alloc (Object (spread (own_props s (Ref k)) (own_props s (Ref extra)))) s of
                            (m, s1) \<Rightarrow> set_prop a ''queryKey'' (Ref m) s1)
                     | Some (Prim p) \<Rightarrow> s) of
               Inl e \<Rightarrow> Inl e
             | Inr s2 \<Rightarrow> Inr (ob, s2)))
    | _ \<Rightarrow> Inr (ob, s))"

definition inyectKeysToQueries :: "nat \<Rightarrow> val \<Rightarrow> addr \<Rightarrow> state \<Rightarrow> error + (val \<times> state)" where
  "inyectKeysToQueries n queries extra s = process n extra queries s"


section \<open>Batch invalidation and cancellation\<close>

text \<open>
  The filter object handed to the engine is built and passed on at once, so it is a
  mapping from field names to what the call site put there: the one-element array
  \<^verbatim>\<open>[key]\<close>, or a value copied from the options.
\<close>

datatype farg = KeyArray "val list" | Plain val

type_synonym filters = "string \<Rightarrow> farg option"

datatype engine_call = InvalidateQueries filters | CancelQueries filters

text \<open>
  Modelled from the spec: \<^verbatim>\<open>queryClient.invalidateQueries(filters)\<close> and
  \<^verbatim>\<open>queryClient.cancelQueries(filters)\<close> are the engine's single-key invalidate and
  cancel operations (section 6 of the specification); each call is recorded, in order,
  with the filter object it received.
\<close>

definition invalidateQueries :: "filters \<Rightarrow> engine_call list \<Rightarrow> engine_call list" where
  "invalidateQueries f calls = calls @ [InvalidateQueries f]"

definition cancelQueries :: "filters \<Rightarrow> engine_call list \<Rightarrow> engine_call list" where
  "cancelQueries f calls = calls @ [CancelQueries f]"

text \<open>\<^verbatim>\<open>...invalidateOptions\<close>: nothing when the optional argument is left out.\<close>

definition option_fields :: "(string \<Rightarrow> val option) option \<Rightarrow> filters" where
  "option_fields invalidateOptions = (case invalidateOptions of
      None \<Rightarrow> Map.empty
    | Some m \<Rightarrow> map_option Plain \<circ> m)"

text \<open>
  \<^verbatim>\<open>keys.filter(Boolean).forEach((key) => {
     queryClient.invalidateQueries({ queryKey: [key], ...invalidateOptions }); });\<close>
\<close>

definition invalidateQueriesForKeys ::
  "val list \<Rightarrow> (string \<Rightarrow> val option) option \<Rightarrow> engine_call list \<Rightarrow> engine_call list" where
  "invalidateQueriesForKeys keys invalidateOptions calls =
     fold (\<lambda>key. invalidateQueries ([''queryKey'' \<mapsto> KeyArray [key]] ++ option_fields invalidateOptions))
       (filter truthy keys) calls"

text \<open>
  \<^verbatim>\<open>keys.filter(Boolean).forEach((key) => {
     queryClient.cancelQueries({ queryKey: [key] }); });\<close>
\<close>

definition cancelQueriesForKeys :: "val list \<Rightarrow> engine_call list \<Rightarrow> engine_call list" where
  "cancelQueriesForKeys keys calls =
     fold (\<lambda>key. cancelQueries [''queryKey'' \<mapsto> KeyArray [key]]) (filter truthy keys) calls"

section \<open>Reading the store\<close>

text \<open>\<^verbatim>\<open>v.p1.p2...\<close>\<close>

definition get_path :: "state \<Rightarrow> val \<Rightarrow> string list \<Rightarrow> error + val" where
  "get_path s v path =
     fold (\<lambda>name r. case r of Inl e \<Rightarrow> Inl e | Inr w \<Rightarrow> get_prop s w name) path (Inr v)"

text \<open>The mapping an object value stands for; none for any other value.\<close>

definition object_at :: "state \<Rightarrow> val \<Rightarrow> (string \<Rightarrow> val option) option" where
  "object_at s v = (case v of
      Ref a \<Rightarrow> (case cells s a of Some (Object ps) \<Rightarrow> Some (map_of ps) | _ \<Rightarrow> None)
    | _ \<Rightarrow> None)"

definition array_at :: "state \<Rightarrow> val \<Rightarrow> val list option" where
  "array_at s v = (case v of
      Ref a \<Rightarrow> (case cells s a of Some (Array xs) \<Rightarrow> Some xs | _ \<Rightarrow> None)
    | _ \<Rightarrow> None)"

text \<open>The key stored at a path below a group, as a mapping.\<close>

definition key_at :: "state \<Rightarrow> val \<Rightarrow> string list \<Rightarrow> (string \<Rightarrow> val option) option" where
  "key_at s g path = (case get_path s g path of Inl e \<Rightarrow> None | Inr k \<Rightarrow> object_at s k)"

text \<open>
  The key \<^verbatim>\<open>g.op.member(...args)\<close> returns, as a mapping, and the keys of the array
  it returns.
\<close>

definition produced_key ::
  "nat \<Rightarrow> state \<Rightarrow> val \<Rightarrow> string \<Rightarrow> string \<Rightarrow> val list \<Rightarrow> (string \<Rightarrow> val option) option" where
  "produced_key n s g op member args = (case get_prop s g op of
      Inl e \<Rightarrow> None
    | Inr ob \<Rightarrow> (case invoke n ob member args s of
          Inl e \<Rightarrow> None
        | Inr (k, s1) \<Rightarrow> object_at s1 k))"

definition produced_keys ::
  "nat \<Rightarrow> state \<Rightarrow> val \<Rightarrow> string \<Rightarrow> string \<Rightarrow> val list \<Rightarrow> (string \<Rightarrow> val option) option list option" where
  "produced_keys n s g op member args = (case get_prop s g op of
      Inl e \<Rightarrow> None
    | Inr ob \<Rightarrow> (case invoke n ob member args s of
          Inl e \<Rightarrow> None
        | Inr (r, s1) \<Rightarrow> (case array_at s1 r of
              None \<Rightarrow> None
            | Some ks \<Rightarrow> Some (map (object_at s1) ks))))"

text \<open>
  \<^verbatim>\<open>g.op.normalize(data)\<close>: the state it leaves, none when it raises.
\<close>

definition normalized :: "nat \<Rightarrow> val \<Rightarrow> string \<Rightarrow> val \<Rightarrow> state \<Rightarrow> state option" where
  "normalized n g op data s = (case get_prop s g op of
      Inl e \<Rightarrow> None
    | Inr ob \<Rightarrow> (case invoke n ob ''normalize'' [data] s of
          Inl e \<Rightarrow> None
        | Inr (v, s1) \<Rightarrow> Some s1))"

text \<open>
  The cache slot the one-element array \<^verbatim>\<open>[key]\<close> names, for a key whose fields
  hold primitives or functions.
\<close>

fun leaf :: "val \<Rightarrow> tree" where
  "leaf (Prim p) = TPrim p"
| "leaf (Fn f) = TFn f"
| "leaf (Ref a) = TArr []"

definition slot_of :: "(string \<Rightarrow> val option) \<Rightarrow> tree" where
  "slot_of m = TArr [TObj (map_option leaf \<circ> m)]"

text \<open>\<^verbatim>\<open>v.id\<close>, \<^verbatim>\<open>undefined\<close> where the read raises.\<close>

definition id_of :: "state \<Rightarrow> val \<Rightarrow> val" where
  "id_of s v = (case get_prop s v ''id'' of Inl e \<Rightarrow> Prim Undefined | Inr i \<Rightarrow> i)"

text \<open>The fields of an object whose values are primitives.\<close>

definition prims :: "(string \<times> prim) list \<Rightarrow> (string \<times> val) list" where
  "prims xs = map (\<lambda>(k, p). (k, Prim p)) xs"

definition is_ref :: "val \<Rightarrow> bool" where
  "is_ref v = (case v of Ref a \<Rightarrow> True | _ \<Rightarrow> False)"

definition is_prim :: "val \<Rightarrow> bool" where
  "is_prim v = (case v of Prim p \<Rightarrow> True | _ \<Rightarrow> False)"

text \<open>
  An object the injector has nothing to do on: no field holds a reference, and
  \<^verbatim>\<open>queryKey\<close>, if it is a field, is not a function.
\<close>

definition inert :: "(string \<times> val) list \<Rightarrow> bool" where
  "inert ps = (list_all (\<lambda>v. \<not> is_ref v) (map snd ps) \<and>
     (case map_of ps ''queryKey'' of Some (Fn f) \<Rightarrow> False | _ \<Rightarrow> True))"

definition inert_at :: "state \<Rightarrow> addr \<Rightarrow> bool" where
  "inert_at s a = (case cells s a of Some (Object ps) \<Rightarrow> inert ps | _ \<Rightarrow> False)"

definition empty_state :: state where
  "empty_state = \<lparr>cells = Map.empty, next_addr = 0, cache = (\<lambda>t. Prim Undefined)\<rparr>"


text \<open>
  A property value the injector leaves alone: anything but a reference, or a reference
  to an allocated object it has nothing to do on.
\<close>

definition settled :: "state \<Rightarrow> val \<Rightarrow> bool" where
  "settled s v = (case v of Ref i \<Rightarrow> inert_at s i \<and> i < next_addr s | _ \<Rightarrow> True)"

text \<open>A field of a key that may be absent.\<close>

definition field_of :: "(string \<Rightarrow> val option) option \<Rightarrow> string \<Rightarrow> val option" where
  "field_of m name = (case m of None \<Rightarrow> None | Some f \<Rightarrow> f name)"

text \<open>An object none of whose fields holds a reference.\<close>

definition flat_at :: "state \<Rightarrow> addr \<Rightarrow> bool" where
  "flat_at s k = (case cells s k of
      Some (Object ps) \<Rightarrow> list_all (\<lambda>v. \<not> is_ref v) (map snd ps)
    | _ \<Rightarrow> False)"

text \<open>The values a property read raises a TypeError on.\<close>

definition nullish :: "val \<Rightarrow> bool" where
  "nullish v = (v = Prim Undefined \<or> v = Prim Null)"

text \<open>
  The groups the injector is followed on in general. A flat key is an allocated object
  with distinct field names whose values are primitives.
\<close>

definition flat_key :: "state \<Rightarrow> addr \<Rightarrow> bool" where
  "flat_key s k = (k < next_addr s \<and> (case cells s k of
      Some (Object kp) \<Rightarrow> list_all is_prim (map snd kp) \<and> distinct (map fst kp)
    | _ \<Rightarrow> False))"

text \<open>
  An operation object: allocated, with distinct property names; under \<^verbatim>\<open>queryKey\<close>
  it holds a flat key, a function or a primitive, and under every other property a value
  the injector leaves alone.
\<close>

definition operation :: "state \<Rightarrow> addr \<Rightarrow> bool" where
  "operation s b = (b < next_addr s \<and> (case cells s b of
      Some (Object qs) \<Rightarrow> distinct (map fst qs) \<and>
        list_all (\<lambda>(p, v). if p = ''queryKey'' then (case v of Ref k \<Rightarrow> flat_key s k | _ \<Rightarrow> True)
                            else settled s v) qs
    | _ \<Rightarrow> False))"

text \<open>The objects the properties of a group refer to, in property order.\<close>

definition members :: "(string \<times> val) list \<Rightarrow> addr list" where
  "members ps = concat (map (\<lambda>(p, v). case v of Ref b \<Rightarrow> [b] | _ \<Rightarrow> []) ps)"

text \<open>
  A group of operations: an allocated object with distinct property names and no
  \<^verbatim>\<open>queryKey\<close> of its own, whose properties refer to operation objects, no two of
  them to the same one.
\<close>

definition group_at :: "state \<Rightarrow> addr \<Rightarrow> bool" where
  "group_at s a = (a < next_addr s \<and> (case cells s a of
      Some (Object ps) \<Rightarrow> distinct (map fst ps) \<and> map_of ps ''queryKey'' = None \<and>
        list_all (operation s) (members ps) \<and> distinct (members ps)
    | _ \<Rightarrow> False))"

text \<open>
  The rewrite of an object's own \<^verbatim>\<open>queryKey\<close> in \<^verbatim>\<open>process\<close>, taken alone: a
  function is replaced by its wrapper, an object by a fresh object
  \<^verbatim>\<open>{...obj.queryKey, ...extra}\<close>, anything else stays.
\<close>

definition inject_op :: "addr \<Rightarrow> addr \<Rightarrow> state \<Rightarrow> state" where
  "inject_op extra b s = (case cells s b of
      Some (Object qs) \<Rightarrow> (case map_of qs ''queryKey'' of
          Some (Fn originalFn) \<Rightarrow> set_prop b ''queryKey'' (Fn (Wrapper originalFn extra)) s
        | Some (Ref k) \<Rightarrow>
            (case alloc (Object (spread (own_props s (Ref k)) (own_props s (Ref extra)))) s of
               (m, s1) \<Rightarrow> set_prop b ''queryKey'' (Ref m) s1)
        | _ \<Rightarrow> s)
    | _ \<Rightarrow> s)"

definition inject_member :: "addr \<Rightarrow> val \<Rightarrow> state \<Rightarrow> state" where
  "inject_member extra v s = (case v of Ref b \<Rightarrow> inject_op extra b s | _ \<Rightarrow> s)"

definition member_ok :: "state \<Rightarrow> val \<Rightarrow> bool" where
  "member_ok s v = (case v of Ref b \<Rightarrow> operation s b | _ \<Rightarrow> True)"

text \<open>Example stores: a result object alone; a result object, two cached items and the
  array of the list entry, under the key before and after injection of \<^verbatim>\<open>{auth: true}\<close>.\<close>

definition demo_absent :: state where
  "demo_absent =
     \<lparr>cells = [0 \<mapsto> Object [(''id'', Prim (Str ''x'')), (''name'', Prim (Str ''new''))]],
      next_addr = 1,
      cache = (\<lambda>t. Prim Undefined)\<rparr>"

definition demo_present :: state where
  "demo_present =
     \<lparr>cells = [0 \<mapsto> Object [(''id'', Prim (Str ''a'')), (''name'', Prim (Str ''new''))],
               1 \<mapsto> Object [(''id'', Prim (Str ''a'')), (''name'', Prim (Str ''old''))],
               2 \<mapsto> Object [(''id'', Prim (Str ''b''))],
               3 \<mapsto> Array [Ref 1, Ref 2]],
      next_addr = 4,
      cache = (\<lambda>t. Prim Undefined)
        (slot_of (map_of [(''entity'', Prim (Str ''accounts'')), (''method'', Prim (Str ''list''))]) := Ref 3)\<rparr>"

definition demo_injected :: state where
  "demo_injected =
     \<lparr>cells = [0 \<mapsto> Object [(''id'', Prim (Str ''a'')), (''name'', Prim (Str ''new''))],
               1 \<mapsto> Object [(''id'', Prim (Str ''a'')), (''name'', Prim (Str ''old''))],
               2 \<mapsto> Object [(''id'', Prim (Str ''b''))],
               3 \<mapsto> Array [Ref 1, Ref 2]],
      next_addr = 4,
      cache = (\<lambda>t. Prim Undefined)
        (slot_of (map_of [(''entity'', Prim (Str ''accounts'')), (''method'', Prim (Str ''list''))]
                  ++ map_of (prims [(''auth'', Bool True)])) := Ref 3)\<rparr>"

section \<open>Nested structures\<close>

text \<open>
  A structure of any depth, as a tree: \<open>dv\<close> is the value read without its addresses
  (objects as lists of fields, in property order), \<open>shape\<close> the same tree with the
  address of every object and array in it.
\<close>

datatype dv = DPrim prim | DFn closure | DArr "dv list" | DObj "(string \<times> dv) list"

datatype shape = SPrim prim | SFn closure | SArr addr "shape list" | SObj addr "(string \<times> shape) list"

text \<open>The value at the root of a shape, and the tree with the addresses erased.\<close>

fun root :: "shape \<Rightarrow> val" where
  "root (SPrim p) = Prim p"
| "root (SFn f) = Fn f"
| "root (SArr a ts) = Ref a"
| "root (SObj a fs) = Ref a"

fun erase :: "shape \<Rightarrow> dv" where
  "erase (SPrim p) = DPrim p"
| "erase (SFn f) = DFn f"
| "erase (SArr a ts) = DArr (map erase ts)"
| "erase (SObj a fs) = DObj (map (\<lambda>(p, c). (p, erase c)) fs)"

abbreviation rootf :: "(string \<times> shape) list \<Rightarrow> (string \<times> val) list" where
  "rootf fs \<equiv> map (\<lambda>(p, c). (p, root c)) fs"

abbreviation erasef :: "(string \<times> shape) list \<Rightarrow> (string \<times> dv) list" where
  "erasef fs \<equiv> map (\<lambda>(p, c). (p, erase c)) fs"

text \<open>
  The store holds a shape: every array and every object of the shape is allocated at its
  address with the elements, or the fields in their order, that the shape gives it; the
  property names of an object are distinct.
\<close>

fun holds :: "state \<Rightarrow> shape \<Rightarrow> bool" where
  "holds s (SPrim p) = True"
| "holds s (SFn f) = True"
| "holds s (SArr a ts) = (a < next_addr s \<and> cells s a = Some (Array (map root ts)) \<and>
     (\<forall>t \<in> set ts. holds s t))"
| "holds s (SObj a fs) = (a < next_addr s \<and> distinct (map fst fs) \<and>
     cells s a = Some (Object (map (\<lambda>(p, c). (p, root c)) fs)) \<and>
     (\<forall>(p, c) \<in> set fs. holds s c))"

text \<open>
  The addresses of the objects of a shape, one entry for each place an object stands at.
  The list is distinct when no object is reached along two paths. Arrays are left out:
  the injector never writes into an array, it builds a new one.
\<close>

fun objs :: "shape \<Rightarrow> addr list" where
  "objs (SPrim p) = []"
| "objs (SFn f) = []"
| "objs (SArr a ts) = concat (map objs ts)"
| "objs (SObj a fs) = a # concat (map (\<lambda>(p, c). objs c) fs)"

definition field_objs :: "(string \<times> shape) list \<Rightarrow> addr list" where
  "field_objs fs = concat (map objs (map snd fs))"

text \<open>
  The extra mappings the injector is followed on: an object whose property values are
  primitives, functions, or arrays of such values nested to any depth, and whose own
  \<^verbatim>\<open>queryKey\<close> property, if it has one, holds a primitive or a function.
\<close>

fun plain :: "shape \<Rightarrow> bool" where
  "plain (SPrim p) = True"
| "plain (SFn f) = True"
| "plain (SArr a ts) = (\<forall>t \<in> set ts. plain t)"
| "plain (SObj a fs) = False"

fun leaf_shape :: "shape \<Rightarrow> bool" where
  "leaf_shape (SPrim p) = True"
| "leaf_shape (SFn f) = True"
| "leaf_shape (SArr a ts) = False"
| "leaf_shape (SObj a fs) = False"

definition extra_at :: "state \<Rightarrow> addr \<Rightarrow> (string \<times> shape) list \<Rightarrow> bool" where
  "extra_at s x exs = (holds s (SObj x exs) \<and>
     (\<forall>(p, c) \<in> set exs. plain c \<and> (p = ''queryKey'' \<longrightarrow> leaf_shape c)))"

fun dplain :: "dv \<Rightarrow> bool" where
  "dplain (DPrim p) = True"
| "dplain (DFn f) = True"
| "dplain (DArr ts) = (\<forall>t \<in> set ts. dplain t)"
| "dplain (DObj fs) = False"

fun dleaf :: "dv \<Rightarrow> bool" where
  "dleaf (DPrim p) = True"
| "dleaf (DFn f) = True"
| "dleaf (DArr ts) = False"
| "dleaf (DObj fs) = False"

definition extra_tree :: "(string \<times> dv) list \<Rightarrow> bool" where
  "extra_tree ex = (\<forall>(p, t) \<in> set ex. dplain t \<and> (p = ''queryKey'' \<longrightarrow> dleaf t))"

text \<open>The elements of an array under their index names, as an object spread copies them.\<close>

definition numbered :: "'a list \<Rightarrow> (string \<times> 'a) list" where
  "numbered xs = zip (map index_name [0..<length xs]) xs"

text \<open>The depth of a tree: the fuel the walk of it takes.\<close>

fun depth :: "dv \<Rightarrow> nat" where
  "depth (DPrim p) = 0"
| "depth (DFn f) = 0"
| "depth (DArr ts) = Suc (fold max (map depth ts) 0)"
| "depth (DObj fs) = Suc (fold max (map (\<lambda>(p, t). depth t) fs) 0)"

text \<open>
  What injection is to leave of a structure, stated on trees and to be compared with
  \<^const>\<open>process\<close>, which works in the store.

  \<open>injected x ex t\<close> is the tree \<open>t\<close> after the fields \<open>ex\<close> of the extra mapping at
  address \<open>x\<close> are injected into it: primitives and functions stay, an array is injected
  element by element, an object field by field, and the value under a property named
  \<^verbatim>\<open>queryKey\<close> is replaced by \<open>injected_key\<close> of it. \<open>injected_key\<close>: a primitive
  stays, a function is wrapped, and an object is replaced by its injected fields with the
  extra fields spread on top (an array by its injected elements under their index names,
  with the extra fields on top), be the object a group, an operation, or a key at any
  depth. The extra fields are spread as they are, but for a function under a property
  of the extra mapping itself named \<^verbatim>\<open>queryKey\<close>, which is wrapped as well
  (\<open>stamped\<close>).
\<close>

definition stamped :: "addr \<Rightarrow> (string \<times> dv) list \<Rightarrow> (string \<times> dv) list" where
  "stamped x ex = map (\<lambda>(p, t). (p, if p = ''queryKey''
      then (case t of DFn f \<Rightarrow> DFn (Wrapper f x) | _ \<Rightarrow> t) else t)) ex"

fun injected :: "addr \<Rightarrow> (string \<times> dv) list \<Rightarrow> dv \<Rightarrow> dv"
  and injected_key :: "addr \<Rightarrow> (string \<times> dv) list \<Rightarrow> dv \<Rightarrow> dv" where
  "injected x ex (DPrim p) = DPrim p"
| "injected x ex (DFn f) = DFn f"
| "injected x ex (DArr ts) = DArr (map (injected x ex) ts)"
| "injected x ex (DObj fs) =
     DObj (map (\<lambda>(p, t). (p, if p = ''queryKey'' then injected_key x ex t else injected x ex t)) fs)"
| "injected_key x ex (DPrim p) = DPrim p"
| "injected_key x ex (DFn f) = DFn (Wrapper f x)"
| "injected_key x ex (DArr ts) = DObj (spread (numbered (map (injected x ex) ts)) (stamped x ex))"
| "injected_key x ex (DObj fs) =
     DObj (spread (map (\<lambda>(p, t). (p, if p = ''queryKey'' then injected_key x ex t else injected x ex t)) fs)
             (stamped x ex))"

text \<open>A tree without a property named \<^verbatim>\<open>queryKey\<close> at any depth.\<close>

fun quiet :: "dv \<Rightarrow> bool" where
  "quiet (DPrim p) = True"
| "quiet (DFn f) = True"
| "quiet (DArr ts) = (\<forall>t \<in> set ts. quiet t)"
| "quiet (DObj fs) = (\<forall>(p, t) \<in> set fs. p \<noteq> ''queryKey'' \<and> quiet t)"

text \<open>
  The rewrite of \<^verbatim>\<open>queryKey\<close> alone, before the loop over the properties walks the
  new value: on shapes, with the address \<open>m\<close> of the fresh object, and on trees.
\<close>

fun rewritten :: "addr \<Rightarrow> addr \<Rightarrow> (string \<times> shape) list \<Rightarrow> shape \<Rightarrow> shape" where
  "rewritten m x exs (SPrim p) = SPrim p"
| "rewritten m x exs (SFn f) = SFn (Wrapper f x)"
| "rewritten m x exs (SArr k ts) = SObj m (spread (numbered ts) exs)"
| "rewritten m x exs (SObj k kfs) = SObj m (spread kfs exs)"

fun merged :: "addr \<Rightarrow> (string \<times> dv) list \<Rightarrow> dv \<Rightarrow> dv" where
  "merged x ex (DPrim p) = DPrim p"
| "merged x ex (DFn f) = DFn (Wrapper f x)"
| "merged x ex (DArr ts) = DObj (spread (numbered ts) ex)"
| "merged x ex (DObj q) = DObj (spread q ex)"

text \<open>The fields a key object or a key array is spread from.\<close>

fun fields_of :: "shape \<Rightarrow> (string \<times> shape) list" where
  "fields_of (SObj k kfs) = kfs"
| "fields_of (SArr k ts) = numbered ts"
| "fields_of (SPrim p) = []"
| "fields_of (SFn f) = []"

text \<open>
  What a walk changes in the store: it allocates, it leaves the cache alone, and of the
  cells that were allocated it changes objects only, and only those in the set \<open>F\<close>.
\<close>

definition frame :: "state \<Rightarrow> addr set \<Rightarrow> state \<Rightarrow> bool" where
  "frame s F s' = (next_addr s \<le> next_addr s' \<and> cache s' = cache s \<and>
     (\<forall>c < next_addr s. cells s' c \<noteq> cells s c \<longrightarrow> c \<in> F \<and> (\<exists>ps. cells s c = Some (Object ps))))"

text \<open>
  The outcome of the walk of a shape \<open>g\<close>, and the statement that \<^const>\<open>process\<close> with
  fuel \<open>n\<close> has this outcome on every shape it has the fuel for.
\<close>

definition outcome :: "addr \<Rightarrow> (string \<times> dv) list \<Rightarrow> state \<Rightarrow> shape \<Rightarrow> state \<Rightarrow> shape \<Rightarrow> bool" where
  "outcome x ex s g s' g' = (holds s' g' \<and> distinct (objs g') \<and>
     erase g' = injected x ex (erase g) \<and> frame s (set (objs g)) s' \<and>
     set (objs g') \<subseteq> set (objs g) \<union> {b. next_addr s \<le> b} \<and>
     (\<forall>a fs. g = SObj a fs \<longrightarrow> root g' = Ref a))"

definition sound :: "nat \<Rightarrow> addr \<Rightarrow> (string \<times> shape) list \<Rightarrow> bool" where
  "sound n x exs = (\<forall>g s. holds s g \<longrightarrow> distinct (objs g) \<longrightarrow> extra_at s x exs \<longrightarrow>
     x \<notin> set (objs g) \<longrightarrow> depth (injected x (erasef exs) (erase g)) < n \<longrightarrow>
     (\<exists>g' s'. process n x (root g) s = Inr (root g', s') \<and> outcome x (erasef exs) s g s' g'))"

text \<open>
  An example store: a group that holds an array of operations and one operation; the
  operation in the array has a static key and an array of keys to invalidate. The extra
  mapping is \<^verbatim>\<open>{features: ["beta-ui"], auth: true}\<close>.
\<close>

definition demo_nested :: state where
  "demo_nested =
     \<lparr>cells = [0 \<mapsto> Object [(''entity'', Prim (Str ''items''))],
               1 \<mapsto> Object [(''entity'', Prim (Str ''items'')), (''method'', Prim (Str ''list''))],
               2 \<mapsto> Array [Ref 1],
               3 \<mapsto> Object [(''queryKey'', Ref 0), (''invalidates'', Ref 2)],
               4 \<mapsto> Array [Ref 3],
               5 \<mapsto> Object [(''queryKey'', Fn (DetailKey ''items''))],
               6 \<mapsto> Object [(''ops'', Ref 4), (''detail'', Ref 5)],
               7 \<mapsto> Array [Prim (Str ''beta-ui'')],
               8 \<mapsto> Object [(''features'', Ref 7), (''auth'', Prim (Bool True))]],
      next_addr = 9,
      cache = (\<lambda>t. Prim Undefined)\<rparr>"

definition demo_group :: shape where
  "demo_group =
     SObj 6 [(''ops'', SArr 4 [SObj 3 [(''queryKey'', SObj 0 [(''entity'', SPrim (Str ''items''))]),
                                       (''invalidates'',
                                          SArr 2 [SObj 1 [(''entity'', SPrim (Str ''items'')),
                                                          (''method'', SPrim (Str ''list''))]])]]),
             (''detail'', SObj 5 [(''queryKey'', SFn (DetailKey ''items''))])]"

definition demo_extra :: "(string \<times> shape) list" where
  "demo_extra = [(''features'', SArr 7 [SPrim (Str ''beta-ui'')]), (''auth'', SPrim (Bool True))]"

text \<open>
  An extra mapping that owns a \<^verbatim>\<open>queryKey\<close> property holding an object, as
  \<^verbatim>\<open>{queryKey: {x: 1}}\<close> does. \<open>leaf_fields\<close>: no property other than
  \<^verbatim>\<open>queryKey\<close> holds a reference. \<open>keyed_extra\<close>: the extra mapping at \<open>x\<close> and the
  object \<open>q\<close> under its \<^verbatim>\<open>queryKey\<close>. \<open>keyed_op\<close>: an object that holds a key
  object under \<^verbatim>\<open>queryKey\<close>.
\<close>

definition leaf_fields :: "(string \<times> val) list \<Rightarrow> bool" where
  "leaf_fields ps = list_all (\<lambda>(p, v). p = ''queryKey'' \<or> \<not> is_ref v) ps"

definition key_object :: "state \<Rightarrow> addr \<Rightarrow> bool" where
  "key_object s k = (case cells s k of
      Some (Object kp) \<Rightarrow> distinct (map fst kp) \<and> leaf_fields kp
    | _ \<Rightarrow> False)"

definition keyed_extra :: "state \<Rightarrow> addr \<Rightarrow> addr \<Rightarrow> bool" where
  "keyed_extra s x q = (x < next_addr s \<and> q < next_addr s \<and> key_object s x \<and> key_object s q \<and>
     map_of (own_props s (Ref x)) ''queryKey'' = Some (Ref q))"

definition keyed_op :: "state \<Rightarrow> addr \<Rightarrow> bool" where
  "keyed_op s a = (a < next_addr s \<and> (case cells s a of
      Some (Object ps) \<Rightarrow> leaf_fields ps \<and>
        (case map_of ps ''queryKey'' of Some (Ref k) \<Rightarrow> key_object s k | _ \<Rightarrow> False)
    | _ \<Rightarrow> False))"

section \<open>The keys of a CRUD group\<close>

lemmas store_simps = alloc_def get_prop_def own_props_def object_at_def array_at_def
  key_at_def get_path_def produced_key_def produced_keys_def invoke_def arg_def

text \<open>
  Claim C1. For every entity name \<open>E\<close>, the group the factory returns has
  \<^verbatim>\<open>all.queryKey = {entity: E}\<close>, \<^verbatim>\<open>list.queryKey = {entity: E, method: "list"}\<close> and
  \<^verbatim>\<open>create.queryKey = {entity: E, method: "create"}\<close>; and for every identifier \<open>i\<close>,
  \<^verbatim>\<open>detail.queryKey(i)\<close>, \<^verbatim>\<open>update.queryKey(i)\<close> and \<^verbatim>\<open>remove.queryKey(i)\<close> return
  \<^verbatim>\<open>{entity: E, method: m, id: i}\<close> with \<open>m\<close> the name of the operation. This holds
  from any store the factory starts in.
\<close>

theorem createQueryGroupCRUD_queryKeys:
  "case createQueryGroupCRUD E s of (g, s1) \<Rightarrow>
     key_at s1 g [''all'', ''queryKey''] = Some (map_of [(''entity'', Prim (Str E))]) \<and>
     key_at s1 g [''list'', ''queryKey''] =
       Some (map_of [(''entity'', Prim (Str E)), (''method'', Prim (Str ''list''))]) \<and>
     key_at s1 g [''create'', ''queryKey''] =
       Some (map_of [(''entity'', Prim (Str E)), (''method'', Prim (Str ''create''))]) \<and>
     produced_key (Suc n) s1 g ''detail'' ''queryKey'' [i] =
       Some (map_of [(''entity'', Prim (Str E)), (''method'', Prim (Str ''detail'')), (''id'', i)]) \<and>
     produced_key (Suc n) s1 g ''update'' ''queryKey'' [i] =
       Some (map_of [(''entity'', Prim (Str E)), (''method'', Prim (Str ''update'')), (''id'', i)]) \<and>
     produced_key (Suc n) s1 g ''remove'' ''queryKey'' [i] =
       Some (map_of [(''entity'', Prim (Str E)), (''method'', Prim (Str ''remove'')), (''id'', i)])"
  by (simp add: createQueryGroupCRUD_def store_simps)

text \<open>
  Claim C2. For every entity name \<open>E\<close> and identifier \<open>i\<close>, \<^verbatim>\<open>update.invalidates(i)\<close>
  and \<^verbatim>\<open>remove.invalidates(i)\<close> each return the two-element array
  \<^verbatim>\<open>[{entity: E, id: i}, {entity: E, method: "list"}]\<close>, in that order, and
  \<^verbatim>\<open>create.invalidates\<close> is the static key \<^verbatim>\<open>{entity: E, method: "list"}\<close>.
\<close>

theorem createQueryGroupCRUD_invalidates:
  "case createQueryGroupCRUD E s of (g, s1) \<Rightarrow>
     produced_keys (Suc n) s1 g ''update'' ''invalidates'' [i] =
       Some [Some (map_of [(''entity'', Prim (Str E)), (''id'', i)]),
             Some (map_of [(''entity'', Prim (Str E)), (''method'', Prim (Str ''list''))])] \<and>
     produced_keys (Suc n) s1 g ''remove'' ''invalidates'' [i] =
       Some [Some (map_of [(''entity'', Prim (Str E)), (''id'', i)]),
             Some (map_of [(''entity'', Prim (Str E)), (''method'', Prim (Str ''list''))])] \<and>
     key_at s1 g [''create'', ''invalidates''] =
       Some (map_of [(''entity'', Prim (Str E)), (''method'', Prim (Str ''list''))])"
  by (simp add: createQueryGroupCRUD_def store_simps)

section \<open>Batch invalidation and cancellation: what the engine is called with\<close>

lemma fold_record: "fold (\<lambda>x cs. cs @ [g x]) xs calls = calls @ map g xs"
  by (induction xs arbitrary: calls) simp_all

lemma invalidate_fold:
  "invalidateQueriesForKeys keys invalidateOptions calls =
     calls @ map (\<lambda>key. InvalidateQueries ([''queryKey'' \<mapsto> KeyArray [key]] ++ option_fields invalidateOptions))
       (filter truthy keys)"
  unfolding invalidateQueriesForKeys_def invalidateQueries_def by (rule fold_record)

lemma cancel_fold:
  "cancelQueriesForKeys keys calls =
     calls @ map (\<lambda>key. CancelQueries [''queryKey'' \<mapsto> KeyArray [key]]) (filter truthy keys)"
  unfolding cancelQueriesForKeys_def cancelQueries_def by (rule fold_record)

lemma key_on_top:
  "f ''queryKey'' = None \<Longrightarrow> [''queryKey'' \<mapsto> k] ++ f = f(''queryKey'' \<mapsto> k)"
  by (auto simp: fun_eq_iff map_add_def split: option.splits)

lemma key_overridden:
  "f ''queryKey'' = Some q \<Longrightarrow> [''queryKey'' \<mapsto> k] ++ f = f"
  by (auto simp: fun_eq_iff map_add_def split: option.splits)

text \<open>
  Claim C7, as amended. For every sequence of keys, \<^verbatim>\<open>invalidateQueriesForKeys\<close> calls
  the engine's invalidate once per truthy entry, in input order, and skips the falsy
  entries without error; when the options have no \<^verbatim>\<open>queryKey\<close> field of their own
  (also when they are left out), each call carries \<^verbatim>\<open>queryKey: [key]\<close> for its entry
  beside the fields of the options. \<^verbatim>\<open>cancelQueriesForKeys\<close> iterates the same way and
  passes \<^verbatim>\<open>{queryKey: [key]}\<close> alone. On
  \<^verbatim>\<open>[null, {entity: "a"}, undefined, {entity: "b"}]\<close> the engine is called twice, with
  the first key and then the second.
\<close>

theorem invalidateQueriesForKeys_calls:
  assumes "option_fields invalidateOptions ''queryKey'' = None"
  shows "invalidateQueriesForKeys keys invalidateOptions calls =
           calls @ map (\<lambda>key. InvalidateQueries ((option_fields invalidateOptions)(''queryKey'' \<mapsto> KeyArray [key])))
             (filter truthy keys) \<and>
         cancelQueriesForKeys keys calls =
           calls @ map (\<lambda>key. CancelQueries [''queryKey'' \<mapsto> KeyArray [key]]) (filter truthy keys) \<and>
         invalidateQueriesForKeys [Prim Null, Ref a, Prim Undefined, Ref b] None [] =
           [InvalidateQueries [''queryKey'' \<mapsto> KeyArray [Ref a]],
            InvalidateQueries [''queryKey'' \<mapsto> KeyArray [Ref b]]]"
  using assms by (simp add: invalidate_fold cancel_fold key_on_top option_fields_def)

theorem invalidateQueriesForKeys_calls_witness:
  "option_fields (Some [''refetchType'' \<mapsto> Prim (Str ''active'')]) ''queryKey'' = None \<and>
   invalidateQueriesForKeys [Prim Null, Ref 0, Prim Undefined, Ref 1]
       (Some [''refetchType'' \<mapsto> Prim (Str ''active'')]) [] =
     [InvalidateQueries [''refetchType'' \<mapsto> Plain (Prim (Str ''active'')), ''queryKey'' \<mapsto> KeyArray [Ref 0]],
      InvalidateQueries [''refetchType'' \<mapsto> Plain (Prim (Str ''active'')), ''queryKey'' \<mapsto> KeyArray [Ref 1]]] \<and>
   cancelQueriesForKeys [Prim Null, Ref 0, Prim Undefined, Ref 1] [] =
     [CancelQueries [''queryKey'' \<mapsto> KeyArray [Ref 0]], CancelQueries [''queryKey'' \<mapsto> KeyArray [Ref 1]]]"
proof -
  have h: "option_fields (Some [''refetchType'' \<mapsto> Prim (Str ''active'')]) ''queryKey'' = None"
    by (simp add: option_fields_def)
  show ?thesis
    using h invalidateQueriesForKeys_calls [OF h, of "[Prim Null, Ref 0, Prim Undefined, Ref 1]" "[]" 0 1]
    by (simp add: option_fields_def)
qed

text \<open>
  Claim C7 as first stated fails: with options that carry a \<^verbatim>\<open>queryKey\<close> of their own,
  the call for the key at address 0 does not carry that key.
\<close>

theorem invalidateQueriesForKeys_key_counterexample:
  "invalidateQueriesForKeys [Ref 0] (Some [''queryKey'' \<mapsto> Prim (Str ''x'')]) [] \<noteq>
     [] @ map (\<lambda>key. InvalidateQueries
                 ((option_fields (Some [''queryKey'' \<mapsto> Prim (Str ''x'')]))(''queryKey'' \<mapsto> KeyArray [key])))
            (filter truthy [Ref 0])"
  by (simp add: invalidate_fold option_fields_def fun_eq_iff)

text \<open>
  Claim C10. When the options passed to \<^verbatim>\<open>invalidateQueriesForKeys\<close> have a
  \<^verbatim>\<open>queryKey\<close> field, every forwarded call carries that field in place of the
  iterated key: the engine receives the options themselves, once per truthy entry,
  whatever the entries are.
\<close>

theorem invalidateQueriesForKeys_override:
  assumes "m ''queryKey'' = Some q"
  shows "invalidateQueriesForKeys keys (Some m) calls =
           calls @ replicate (length (filter truthy keys)) (InvalidateQueries (map_option Plain \<circ> m)) \<and>
         (map_option Plain \<circ> m) ''queryKey'' = Some (Plain q)"
  using assms by (simp add: invalidate_fold key_overridden option_fields_def map_replicate_const)

theorem invalidateQueriesForKeys_override_witness:
  "[''queryKey'' \<mapsto> Prim (Str ''x'')] ''queryKey'' = Some (Prim (Str ''x'')) \<and>
   invalidateQueriesForKeys [Ref 0, Prim Null, Ref 1] (Some [''queryKey'' \<mapsto> Prim (Str ''x'')]) [] =
     [InvalidateQueries [''queryKey'' \<mapsto> Plain (Prim (Str ''x''))],
      InvalidateQueries [''queryKey'' \<mapsto> Plain (Prim (Str ''x''))]]"
proof -
  have h: "[''queryKey'' \<mapsto> Prim (Str ''x'')] ''queryKey'' = Some (Prim (Str ''x''))"
    by simp
  show ?thesis
    using h invalidateQueriesForKeys_override
      [of "[''queryKey'' \<mapsto> Prim (Str ''x'')]" "Prim (Str ''x'')" "[Ref 0, Prim Null, Ref 1]" "[]"]
    by (simp add: fun_eq_iff)
qed

section \<open>Object spread and the injector on settled objects\<close>

declare process.simps(2) [simp del]

lemma map_of_assign:
  "distinct (map fst src) \<Longrightarrow> map_of (assign target src) = map_of target ++ map_of src"
proof (induction src arbitrary: target)
  case Nil
  then show ?case by (simp add: assign_def)
next
  case (Cons p src)
  obtain k v where p: "p = (k, v)" by (cases p)
  from Cons.prems p have k: "k \<notin> fst ` set src" and d: "distinct (map fst src)" by auto
  have "map_of (assign target (p # src)) = map_of (assign (AList.update k v target) src)"
    by (simp add: assign_def p)
  also have "\<dots> = (map_of target)(k \<mapsto> v) ++ map_of src"
    by (simp only: Cons.IH [OF d] update_conv')
  also have "\<dots> = map_of target ++ map_of (p # src)"
    using k by (simp add: p map_add_upd_left dom_map_of_conv_image_fst)
  finally show ?case .
qed

lemma distinct_assign:
  "distinct (map fst target) \<Longrightarrow> distinct (map fst (assign target src))"
  unfolding assign_def
  by (induction src arbitrary: target) (auto simp: distinct_update)

lemma values_update:
  "list_all P (map snd al) \<Longrightarrow> P v \<Longrightarrow> list_all P (map snd (AList.update k v al))"
  by (induction al) auto

lemma values_assign:
  "list_all P (map snd target) \<Longrightarrow> list_all P (map snd src)
     \<Longrightarrow> list_all P (map snd (assign target src))"
  unfolding assign_def
proof (induction src arbitrary: target)
  case Nil
  then show ?case by simp
next
  case (Cons p src)
  then show ?case by (cases p) (auto intro: values_update)
qed

lemma map_of_spread:
  "distinct (map fst a) \<Longrightarrow> distinct (map fst b) \<Longrightarrow> map_of (spread a b) = map_of a ++ map_of b"
  by (simp add: spread_def map_of_assign)

lemma distinct_spread: "distinct (map fst (spread a b))"
  by (simp add: spread_def distinct_assign)

lemma values_spread:
  "list_all P (map snd a) \<Longrightarrow> list_all P (map snd b) \<Longrightarrow> list_all P (map snd (spread a b))"
  by (simp add: spread_def values_assign)

lemma names_prims: "map fst (prims xs) = map fst xs"
  by (induction xs) (auto simp: prims_def)

lemma values_prims: "list_all is_prim (map snd (prims xs))"
  by (induction xs) (auto simp: prims_def is_prim_def)

lemma set_prop_same:
  "cells s a = Some (Object ps) \<Longrightarrow> map_of ps name = Some v \<Longrightarrow> set_prop a name v s = s"
  by (simp add: set_prop_def update_triv map_upd_triv)

lemma for_in_stable:
  assumes "cells s a = Some (Object ps)"
    and "\<And>name v. map_of ps name = Some v \<Longrightarrow> f v s = Inr (v, s)"
  shows "for_in f a names s = Inr s"
proof (induction names)
  case Nil
  show ?case by simp
next
  case (Cons name names)
  show ?case
  proof (cases "map_of ps name")
    case None
    with assms(1) Cons show ?thesis by (simp add: has_own_def own_props_def)
  next
    case (Some v)
    with assms Cons show ?thesis
      by (simp add: has_own_def own_props_def get_prop_def set_prop_same)
  qed
qed

lemma process_Prim: "process (Suc n) x (Prim p) s = Inr (Prim p, s)"
  by (simp add: process.simps)

lemma process_Fn: "process (Suc n) x (Fn f) s = Inr (Fn f, s)"
  by (simp add: process.simps)

lemma process_not_ref: "\<not> is_ref v \<Longrightarrow> process (Suc n) x v s = Inr (v, s)"
  by (cases v) (simp_all add: is_ref_def process.simps)

lemma prims_inert: "list_all is_prim (map snd ps) \<Longrightarrow> inert ps"
  unfolding inert_def
proof
  assume a: "list_all is_prim (map snd ps)"
  then show "list_all (\<lambda>v. \<not> is_ref v) (map snd ps)"
    by (auto simp: list_all_iff is_prim_def is_ref_def split: val.splits)
  show "case map_of ps ''queryKey'' of None \<Rightarrow> True | Some (Fn f) \<Rightarrow> False | Some _ \<Rightarrow> True"
  proof (cases "map_of ps ''queryKey''")
    case None
    then show ?thesis by simp
  next
    case (Some v)
    then have "v \<in> snd ` set ps" by (force dest: map_of_SomeD)
    with a have "is_prim v" by (auto simp: list_all_iff)
    with Some show ?thesis by (cases v) (auto simp: is_prim_def)
  qed
qed

lemma process_inert:
  assumes "cells s a = Some (Object ps)" and "inert ps"
  shows "process (Suc (Suc n)) x (Ref a) s = Inr (Ref a, s)"
proof -
  have nr: "\<not> is_ref v" if "map_of ps name = Some v" for name v
    using that assms(2) by (auto simp: inert_def list_all_iff dest!: map_of_SomeD)
  have q: "(case map_of ps ''queryKey'' of
              None \<Rightarrow> s
            | Some (Fn originalFn) \<Rightarrow> set_prop a ''queryKey'' (Fn (Wrapper originalFn x)) s
            | Some (Ref k) \<Rightarrow>
                (case alloc (Object (spread (own_props s (Ref k)) (own_props s (Ref x)))) s of
                   (m, s1) \<Rightarrow> set_prop a ''queryKey'' (Ref m) s1)
            | Some (Prim p) \<Rightarrow> s) = s"
    using assms(2) nr [of "''queryKey''"]
    by (auto simp: inert_def is_ref_def split: option.splits val.splits)
  have "for_in (process (Suc n) x) a (map fst ps) s = Inr s"
    using assms(1) by (rule for_in_stable) (rule process_not_ref, rule nr)
  then show ?thesis
    using assms(1) q by (simp add: process.simps)
qed

lemma process_inert_at: "inert_at s a \<Longrightarrow> process (Suc (Suc n)) x (Ref a) s = Inr (Ref a, s)"
  by (auto simp: inert_at_def split: option.splits obj.splits intro: process_inert)

lemmas process_unfold = process.simps(2) [of "Suc (Suc n)" for n]

lemmas inject_simps = inyectKeysToQueries_def process_unfold process_Prim process_Fn
  set_prop_def has_own_def process_inert_at inert_at_def prims_inert values_spread values_prims
  is_prim_def map_of_spread names_prims

lemma process_settled: "settled s v \<Longrightarrow> process (Suc (Suc n)) x v s = Inr (v, s)"
  by (cases v) (simp_all add: settled_def process_Prim process_Fn process_inert_at)

lemma map_of_update_cases:
  "map_of (AList.update k w ps) name = Some v \<Longrightarrow>
     (name = k \<and> v = w) \<or> (name \<noteq> k \<and> map_of ps name = Some v)"
  by (simp add: update_conv' split: if_splits)

lemma process_static_op:
  assumes b: "cells s b = Some (Object qs)" "b < next_addr s"
    and q: "map_of qs ''queryKey'' = Some (Ref k)"
    and k: "cells s k = Some (Object kp)" "list_all is_prim (map snd kp)"
    and x: "cells s x = Some (Object ex)" "list_all is_prim (map snd ex)"
    and rest: "\<forall>(p, v) \<in> set qs. p \<noteq> ''queryKey'' \<longrightarrow> settled s v"
  shows "process (Suc (Suc (Suc n))) x (Ref b) s =
    Inr (Ref b, s\<lparr>next_addr := Suc (next_addr s),
                    cells := (cells s)(next_addr s \<mapsto> Object (spread kp ex),
                                     b \<mapsto> Object (AList.update ''queryKey'' (Ref (next_addr s)) qs))\<rparr>)"
    (is "_ = Inr (_, ?s1)")
proof -
  let ?m = "next_addr s"
  let ?qs = "AList.update ''queryKey'' (Ref ?m) qs"
  have cb: "cells ?s1 b = Some (Object ?qs)" by simp
  have cm: "cells ?s1 ?m = Some (Object (spread kp ex))" using b(2) by simp
  have step: "process (Suc (Suc n)) x v ?s1 = Inr (v, ?s1)" if "map_of ?qs name = Some v" for name v
  proof -
    from map_of_update_cases [OF that]
    consider "name = ''queryKey''" "v = Ref ?m" | "name \<noteq> ''queryKey''" "map_of qs name = Some v"
      by blast
    then show ?thesis
    proof cases
      case 1
      have "inert (spread kp ex)" using k(2) x(2) by (intro prims_inert values_spread)
      with cm 1 show ?thesis by (simp add: process_inert)
    next
      case 2
      then have "(name, v) \<in> set qs" by (auto dest: map_of_SomeD)
      with rest 2 have st: "settled s v" by auto
      have "settled ?s1 v"
      proof (cases v)
        case (Ref i)
        with st have i: "inert_at s i" "i < next_addr s" by (auto simp: settled_def)
        from i(1) b(1) q have "i \<noteq> b"
          by (force simp: inert_at_def inert_def list_all_iff is_ref_def dest!: map_of_SomeD)
        with i Ref show ?thesis by (auto simp: settled_def inert_at_def)
      qed (simp_all add: settled_def)
      then show ?thesis by (rule process_settled)
    qed
  qed
  have "for_in (process (Suc (Suc n)) x) b (map fst ?qs) ?s1 = Inr ?s1"
    using cb by (rule for_in_stable) (rule step)
  moreover have "map fst ?qs = map fst qs"
    using q by (auto simp: update_keys dest: map_of_SomeD intro: rev_image_eqI)
  ultimately show ?thesis
    using b q k(1) x(1)
    by (simp add: process.simps(2) [of "Suc (Suc n)"] alloc_def set_prop_def own_props_def)
qed

lemma process_function_op:
  assumes b: "cells s b = Some (Object qs)"
    and q: "map_of qs ''queryKey'' = Some (Fn f)"
    and rest: "\<forall>(p, v) \<in> set qs. p \<noteq> ''queryKey'' \<longrightarrow> settled s v"
  shows "process (Suc (Suc (Suc n))) x (Ref b) s =
    Inr (Ref b, s\<lparr>cells := (cells s)(b \<mapsto> Object (AList.update ''queryKey'' (Fn (Wrapper f x)) qs))\<rparr>)"
    (is "_ = Inr (_, ?s1)")
proof -
  let ?qs = "AList.update ''queryKey'' (Fn (Wrapper f x)) qs"
  have cb: "cells ?s1 b = Some (Object ?qs)" by simp
  have step: "process (Suc (Suc n)) x v ?s1 = Inr (v, ?s1)" if "map_of ?qs name = Some v" for name v
  proof -
    from map_of_update_cases [OF that]
    consider "name = ''queryKey''" "v = Fn (Wrapper f x)" | "name \<noteq> ''queryKey''" "map_of qs name = Some v"
      by blast
    then show ?thesis
    proof cases
      case 1
      then show ?thesis by (simp add: process_Fn)
    next
      case 2
      then have "(name, v) \<in> set qs" by (auto dest: map_of_SomeD)
      with rest 2 have st: "settled s v" by auto
      have "settled ?s1 v"
      proof (cases v)
        case (Ref i)
        with st have i: "inert_at s i" "i < next_addr s" by (auto simp: settled_def)
        from i(1) b(1) q have "i \<noteq> b"
          by (auto simp: inert_at_def inert_def)
        with i Ref show ?thesis by (auto simp: settled_def inert_at_def)
      qed (simp_all add: settled_def)
      then show ?thesis by (rule process_settled)
    qed
  qed
  have "for_in (process (Suc (Suc n)) x) b (map fst ?qs) ?s1 = Inr ?s1"
    using cb by (rule for_in_stable) (rule step)
  moreover have "map fst ?qs = map fst qs"
    using q by (auto simp: update_keys dest: map_of_SomeD intro: rev_image_eqI)
  ultimately show ?thesis
    using b q
    by (simp add: process.simps(2) [of "Suc (Suc n)"] set_prop_def)
qed

lemma fuel:
  "n + 2 = Suc (Suc n)" "n + 3 = Suc (Suc (Suc n))" "n + 4 = Suc (Suc (Suc (Suc n)))"
  "n + 5 = Suc (Suc (Suc (Suc (Suc n))))" "n + 6 = Suc (Suc (Suc (Suc (Suc (Suc n)))))"
  by simp_all

section \<open>Injection into a group of operations\<close>

text \<open>
  The injector on a group of operations: the walk over the group is the fold of
  \<^const>\<open>inject_op\<close> over the operation objects of the group, in property order. Each
  step rewrites one operation and allocates at most one object, so that the steps do
  not interfere: what the fold leaves at an operation is what its own step leaves there.
\<close>

lemmas crud_simps = fuel createQueryGroupCRUD_def store_simps inject_simps is_plain_object_def

lemma operationD:
  assumes "operation s b"
  obtains qs where "cells s b = Some (Object qs)" "b < next_addr s" "distinct (map fst qs)"
    "\<And>p v. (p, v) \<in> set qs \<Longrightarrow> p \<noteq> ''queryKey'' \<Longrightarrow> settled s v"
    "\<And>k. map_of qs ''queryKey'' = Some (Ref k) \<Longrightarrow> flat_key s k"
proof -
  from assms obtain qs where qs: "cells s b = Some (Object qs)" "b < next_addr s" "distinct (map fst qs)"
    and all: "list_all (\<lambda>(p, v). if p = ''queryKey'' then (case v of Ref k \<Rightarrow> flat_key s k | _ \<Rightarrow> True)
                            else settled s v) qs"
    by (auto simp: operation_def split: option.splits obj.splits)
  have 1: "settled s v" if "(p, v) \<in> set qs" "p \<noteq> ''queryKey''" for p v
    using all that by (auto simp: list_all_iff)
  have 2: "flat_key s k" if "map_of qs ''queryKey'' = Some (Ref k)" for k
    using all map_of_SomeD [OF that] by (auto simp: list_all_iff)
  from qs 1 2 show ?thesis by (rule that)
qed

lemma flat_keyD:
  assumes "flat_key s k"
  obtains kp where "cells s k = Some (Object kp)" "k < next_addr s" "list_all is_prim (map snd kp)"
    "distinct (map fst kp)"
  using assms by (auto simp: flat_key_def split: option.splits obj.splits)

lemma queryKey_cases:
  fixes m :: "val option"
  obtains (static) k where "m = Some (Ref k)"
    | (dynamic) f where "m = Some (Fn f)"
    | (none) "m = None"
    | (prim) p where "m = Some (Prim p)"
proof (cases m)
  case None
  then show ?thesis by (rule none)
next
  case (Some v)
  then show ?thesis by (cases v) (auto intro: static dynamic prim)
qed

lemma process_op:
  assumes op: "operation s b" and x: "flat_key s x"
  shows "process (Suc (Suc (Suc n))) x (Ref b) s = Inr (Ref b, inject_op x b s)"
proof -
  from op obtain qs where qs: "cells s b = Some (Object qs)" "b < next_addr s"
    and "distinct (map fst qs)"
    and rest: "\<And>p v. (p, v) \<in> set qs \<Longrightarrow> p \<noteq> ''queryKey'' \<Longrightarrow> settled s v"
    and key: "\<And>k. map_of qs ''queryKey'' = Some (Ref k) \<Longrightarrow> flat_key s k"
    by (rule operationD) blast
  from x obtain ex where ex: "cells s x = Some (Object ex)" "list_all is_prim (map snd ex)"
    by (rule flat_keyD) blast
  have rest': "\<forall>(p, v) \<in> set qs. p \<noteq> ''queryKey'' \<longrightarrow> settled s v"
    using rest by auto
  show ?thesis
  proof (cases "map_of qs ''queryKey''" rule: queryKey_cases)
    case (static k)
    from key [OF static] obtain kp where kp: "cells s k = Some (Object kp)" "list_all is_prim (map snd kp)"
      by (rule flat_keyD) blast
    show ?thesis
      using process_static_op [OF qs static kp ex rest', of n] qs static kp ex
      by (simp add: inject_op_def alloc_def set_prop_def own_props_def)
  next
    case (dynamic f)
    show ?thesis
      using process_function_op [OF qs(1) dynamic rest', of n x] qs dynamic
      by (simp add: inject_op_def set_prop_def)
  next
    case none
    have "for_in (process (Suc (Suc n)) x) b (map fst qs) s = Inr s"
      using qs(1)
    proof (rule for_in_stable)
      fix name v assume nv: "map_of qs name = Some v"
      with none have "name \<noteq> ''queryKey''" by auto
      with rest nv have "settled s v" by (auto dest: map_of_SomeD)
      then show "process (Suc (Suc n)) x v s = Inr (v, s)" by (rule process_settled)
    qed
    with qs none show ?thesis
      by (simp add: process.simps(2) [of "Suc (Suc n)"] inject_op_def)
  next
    case (prim p)
    have "for_in (process (Suc (Suc n)) x) b (map fst qs) s = Inr s"
      using qs(1)
    proof (rule for_in_stable)
      fix name v assume nv: "map_of qs name = Some v"
      show "process (Suc (Suc n)) x v s = Inr (v, s)"
      proof (cases "name = ''queryKey''")
        case True
        with nv prim have "v = Prim p" by simp
        then show ?thesis by (simp add: process_Prim)
      next
        case False
        with rest nv have "settled s v" by (auto dest: map_of_SomeD)
        then show ?thesis by (rule process_settled)
      qed
    qed
    with qs prim show ?thesis
      by (simp add: process.simps(2) [of "Suc (Suc n)"] inject_op_def)
  qed
qed


lemma inject_op_cases:
  obtains (static) qs k where "cells s b = Some (Object qs)" "map_of qs ''queryKey'' = Some (Ref k)"
      "inject_op x b s = set_prop b ''queryKey'' (Ref (next_addr s))
         (snd (alloc (Object (spread (own_props s (Ref k)) (own_props s (Ref x)))) s))"
    | (dynamic) qs f where "cells s b = Some (Object qs)" "map_of qs ''queryKey'' = Some (Fn f)"
      "inject_op x b s = s\<lparr>cells := (cells s)(b \<mapsto> Object (AList.update ''queryKey'' (Fn (Wrapper f x)) qs))\<rparr>"
    | (same) "inject_op x b s = s"
proof (cases "cells s b")
  case None
  then show ?thesis by (intro that(3)) (simp add: inject_op_def)
next
  case (Some ob)
  show ?thesis
  proof (cases ob)
    case (Array xs)
    with Some show ?thesis by (intro that(3)) (simp add: inject_op_def)
  next
    case (Object qs)
    show ?thesis
    proof (cases "map_of qs ''queryKey''" rule: queryKey_cases)
      case (static k)
      with Some Object show ?thesis
        by (intro that(1) [of qs k]) (simp_all add: inject_op_def alloc_def)
    next
      case (dynamic f)
      with Some Object show ?thesis
        by (intro that(2) [of qs f]) (simp_all add: inject_op_def set_prop_def)
    next
      case none
      with Some Object show ?thesis by (intro that(3)) (simp add: inject_op_def)
    next
      case (prim p)
      with Some Object show ?thesis by (intro that(3)) (simp add: inject_op_def)
    qed
  qed
qed

lemma inject_op_next: "next_addr s \<le> next_addr (inject_op x b s)"
  by (rule inject_op_cases [where s = s and b = b and x = x]) (simp_all add: set_prop_def alloc_def split: option.split obj.split)

lemma inject_op_other:
  "c \<noteq> b \<Longrightarrow> c < next_addr s \<Longrightarrow> cells (inject_op x b s) c = cells s c"
  by (rule inject_op_cases [where s = s and b = b and x = x]) (simp_all add: set_prop_def alloc_def split: option.split obj.split)

lemma inject_op_inert: "inert_at s b \<Longrightarrow> inject_op x b s = s"
proof -
  assume "inert_at s b"
  then obtain ps where ps: "cells s b = Some (Object ps)" "inert ps"
    by (auto simp: inert_at_def split: option.splits obj.splits)
  show ?thesis
  proof (cases "map_of ps ''queryKey''" rule: queryKey_cases)
    case (static k)
    then have "(''queryKey'', Ref k) \<in> set ps" by (rule map_of_SomeD)
    then have "Ref k \<in> set (map snd ps)" by force
    moreover from ps(2) have "\<forall>v \<in> set (map snd ps). \<not> is_ref v"
      by (simp add: inert_def list_all_iff)
    ultimately have "\<not> is_ref (Ref k)" by blast
    then show ?thesis by (simp add: is_ref_def)
  next
    case (dynamic f)
    with ps(2) show ?thesis by (simp add: inert_def)
  next
    case none
    with ps(1) show ?thesis by (simp add: inject_op_def)
  next
    case (prim p)
    with ps(1) show ?thesis by (simp add: inject_op_def)
  qed
qed

lemma inject_op_prims:
  "cells s b = Some (Object kp) \<Longrightarrow> list_all is_prim (map snd kp) \<Longrightarrow> inject_op x b s = s"
  by (rule inject_op_inert) (simp add: inert_at_def prims_inert)

lemma inject_op_flat:
  assumes "flat_key s k"
  shows "inject_op x k s = s"
proof -
  from assms obtain kp where "cells s k = Some (Object kp)" "list_all is_prim (map snd kp)"
    by (rule flat_keyD) blast
  then show ?thesis by (rule inject_op_prims)
qed

lemma inject_op_inert_cell:
  "inert_at s c \<Longrightarrow> c < next_addr s \<Longrightarrow> cells (inject_op x b s) c = cells s c"
  by (cases "c = b") (simp_all add: inject_op_inert inject_op_other)

lemma inject_op_flat_cell:
  assumes "flat_key s k"
  shows "cells (inject_op x b s) k = cells s k"
proof (cases "k = b")
  case True
  with assms show ?thesis by (simp add: inject_op_flat)
next
  case False
  moreover from assms have "k < next_addr s" by (simp add: flat_key_def)
  ultimately show ?thesis by (rule inject_op_other)
qed

lemma inert_at_cong: "cells t c = cells s c \<Longrightarrow> inert_at t c = inert_at s c"
  by (simp add: inert_at_def)

lemma settled_inject_op:
  assumes "settled s v"
  shows "settled (inject_op x b s) v"
proof (cases v)
  case (Ref i)
  with assms have i: "inert_at s i" "i < next_addr s" by (simp_all add: settled_def)
  then have "cells (inject_op x b s) i = cells s i" by (rule inject_op_inert_cell)
  then have "inert_at (inject_op x b s) i = inert_at s i" by (rule inert_at_cong)
  with i(1) have "inert_at (inject_op x b s) i" by simp
  moreover have "i < next_addr (inject_op x b s)"
    using i(2) inject_op_next [of s x b] by simp
  ultimately show ?thesis using Ref by (simp add: settled_def)
qed (simp_all add: settled_def)

lemma flat_key_inject_op:
  assumes k: "flat_key s k"
  shows "flat_key (inject_op x b s) k"
proof -
  from k have "cells (inject_op x b s) k = cells s k" by (rule inject_op_flat_cell)
  moreover from k have "k < next_addr (inject_op x b s)"
    using inject_op_next [of s x b] by (simp add: flat_key_def)
  ultimately show ?thesis using k by (simp add: flat_key_def)
qed

lemma list_all_update:
  "list_all (\<lambda>(p, v). P p v) qs \<Longrightarrow> P k w \<Longrightarrow> list_all (\<lambda>(p, v). P p v) (AList.update k w qs)"
  by (induction qs) auto

lemma operation_inject_op:
  assumes b: "operation s b" and x: "flat_key s x" and c: "operation s c"
  shows "operation (inject_op x b s) c"
proof (cases "c = b")
  case False
  from c obtain qs where qs: "cells s c = Some (Object qs)" "c < next_addr s" "distinct (map fst qs)"
    and all: "list_all (\<lambda>(p, v). if p = ''queryKey'' then (case v of Ref k \<Rightarrow> flat_key s k | _ \<Rightarrow> True)
                            else settled s v) qs"
    by (auto simp: operation_def split: option.splits obj.splits)
  have "list_all (\<lambda>(p, v). if p = ''queryKey''
            then (case v of Ref k \<Rightarrow> flat_key (inject_op x b s) k | _ \<Rightarrow> True)
            else settled (inject_op x b s) v) qs"
    using all by (auto simp: list_all_iff settled_inject_op flat_key_inject_op split: val.splits)
  with qs False inject_op_next [of s x b] show ?thesis
    by (auto simp: operation_def inject_op_other)
next
  case True
  from b obtain qs where qs: "cells s b = Some (Object qs)" "b < next_addr s" "distinct (map fst qs)"
    and all: "list_all (\<lambda>(p, v). if p = ''queryKey'' then (case v of Ref k \<Rightarrow> flat_key s k | _ \<Rightarrow> True)
                            else settled s v) qs"
    by (auto simp: operation_def split: option.splits obj.splits)
  let ?t = "inject_op x b s"
  have all': "list_all (\<lambda>(p, v). if p = ''queryKey''
            then (case v of Ref k \<Rightarrow> flat_key ?t k | _ \<Rightarrow> True)
            else settled ?t v) qs"
    using all by (auto simp: list_all_iff settled_inject_op flat_key_inject_op split: val.splits)
  from x obtain ex where ex: "cells s x = Some (Object ex)" "list_all is_prim (map snd ex)"
    by (rule flat_keyD) blast
  show ?thesis
  proof (cases "map_of qs ''queryKey''" rule: queryKey_cases)
    case (static k)
    from b static qs(1) have "flat_key s k"
      by (auto elim!: operationD)
    then obtain kp where kp: "cells s k = Some (Object kp)" "list_all is_prim (map snd kp)"
      by (rule flat_keyD) blast
    have cell: "cells ?t b = Some (Object (AList.update ''queryKey'' (Ref (next_addr s)) qs))"
      and m: "cells ?t (next_addr s) = Some (Object (spread kp ex))"
      and n: "next_addr ?t = Suc (next_addr s)"
      using qs static kp ex by (auto simp: inject_op_def alloc_def set_prop_def own_props_def)
    have fm: "flat_key ?t (next_addr s)"
      using m n kp(2) ex(2) by (simp add: flat_key_def values_spread distinct_spread)
    have "list_all (\<lambda>(p, v). if p = ''queryKey''
            then (case v of Ref k \<Rightarrow> flat_key ?t k | _ \<Rightarrow> True)
            else settled ?t v) (AList.update ''queryKey'' (Ref (next_addr s)) qs)"
      using all' fm by (intro list_all_update) simp_all
    with cell n qs True show ?thesis
      by (simp add: operation_def distinct_update)
  next
    case (dynamic f)
    have cell: "cells ?t b = Some (Object (AList.update ''queryKey'' (Fn (Wrapper f x)) qs))"
      and n: "next_addr ?t = next_addr s"
      using qs dynamic by (auto simp: inject_op_def set_prop_def)
    have "list_all (\<lambda>(p, v). if p = ''queryKey''
            then (case v of Ref k \<Rightarrow> flat_key ?t k | _ \<Rightarrow> True)
            else settled ?t v) (AList.update ''queryKey'' (Fn (Wrapper f x)) qs)"
      using all' by (intro list_all_update) simp_all
    with cell n qs True show ?thesis
      by (simp add: operation_def distinct_update)
  next
    case none
    with qs have "?t = s" by (simp add: inject_op_def)
    with c show ?thesis by simp
  next
    case (prim p)
    with qs have "?t = s" by (simp add: inject_op_def)
    with c show ?thesis by simp
  qed
qed


lemma process_member:
  "member_ok s v \<Longrightarrow> flat_key s x \<Longrightarrow>
     process (Suc (Suc (Suc n))) x v s = Inr (v, inject_member x v s)"
  by (cases v) (simp_all add: member_ok_def inject_member_def process_Prim process_Fn process_op)

lemma member_ok_inject:
  "member_ok s v \<Longrightarrow> flat_key s x \<Longrightarrow> member_ok s w \<Longrightarrow> member_ok (inject_member x v s) w"
  by (cases v; cases w) (simp_all add: member_ok_def inject_member_def operation_inject_op)

lemma flat_key_inject_member: "flat_key s k \<Longrightarrow> flat_key (inject_member x v s) k"
  by (cases v) (simp_all add: inject_member_def flat_key_inject_op)

text \<open>A group object without a queryKey of its own is never rewritten by an injection step.\<close>

lemma inject_op_passive:
  "cells s a = Some (Object ps) \<Longrightarrow> map_of ps ''queryKey'' = None \<Longrightarrow> a < next_addr s
     \<Longrightarrow> cells (inject_op x b s) a = Some (Object ps)"
  by (cases "a = b") (simp_all add: inject_op_other, simp add: inject_op_def)

lemma inject_member_passive:
  "cells s a = Some (Object ps) \<Longrightarrow> map_of ps ''queryKey'' = None \<Longrightarrow> a < next_addr s
     \<Longrightarrow> cells (inject_member x v s) a = Some (Object ps)"
  by (cases v) (simp_all add: inject_member_def inject_op_passive)

lemma inject_member_next: "next_addr s \<le> next_addr (inject_member x v s)"
  by (cases v) (simp_all add: inject_member_def inject_op_next)

lemma for_in_group:
  assumes "cells s a = Some (Object ps)" "map_of ps ''queryKey'' = None" "a < next_addr s"
    and "flat_key s x" and "\<forall>v \<in> snd ` set ps. member_ok s v" and "set names \<subseteq> fst ` set ps"
  shows "for_in (process (Suc (Suc (Suc n))) x) a names s =
           Inr (fold (inject_member x) (map (\<lambda>name. the (map_of ps name)) names) s)"
  using assms
proof (induction names arbitrary: s)
  case Nil
  show ?case by simp
next
  case (Cons name names)
  from Cons.prems(6) obtain v where v: "map_of ps name = Some v"
    by (cases "map_of ps name") (auto simp: map_of_eq_None_iff)
  then have vm: "member_ok s v"
    using Cons.prems(5) by (force dest: map_of_SomeD)
  let ?t = "inject_member x v s"
  have cell: "cells ?t a = Some (Object ps)"
    using Cons.prems(1,2,3) by (rule inject_member_passive)
  have next_t: "a < next_addr ?t"
    using Cons.prems(3) inject_member_next [of s x v] by simp
  have ok: "\<forall>w \<in> snd ` set ps. member_ok ?t w"
    using Cons.prems(4,5) vm by (auto intro: member_ok_inject)
  have "for_in (process (Suc (Suc (Suc n))) x) a names ?t =
          Inr (fold (inject_member x) (map (\<lambda>name. the (map_of ps name)) names) ?t)"
    using cell Cons.prems(2) next_t flat_key_inject_member [OF Cons.prems(4)] ok Cons.prems(6)
    by (intro Cons.IH) auto
  moreover have "set_prop a name v ?t = ?t"
    using cell v by (rule set_prop_same)
  ultimately show ?case
    using Cons.prems(1) v process_member [OF vm Cons.prems(4), of n]
    by (simp add: has_own_def own_props_def get_prop_def)
qed

lemma the_map_of_names:
  "distinct (map fst ps) \<Longrightarrow> map (\<lambda>name. the (map_of ps name)) (map fst ps) = map snd ps"
  by (induction ps) (auto simp: image_iff)

lemma fold_inject_member:
  "fold (inject_member x) (map snd ps) s = fold (inject_op x) (members ps) s"
proof (induction ps arbitrary: s)
  case Nil
  show ?case by (simp add: members_def)
next
  case (Cons p ps)
  obtain name v where p: "p = (name, v)" by (cases p)
  have "members (p # ps) = (case v of Ref b \<Rightarrow> [b] | _ \<Rightarrow> []) @ members ps"
    by (simp add: members_def p)
  with Cons [of "inject_member x v s"] show ?case
    by (cases v) (simp_all add: p inject_member_def)
qed

lemma members_member_ok:
  "list_all (operation s) (members ps) \<Longrightarrow> \<forall>v \<in> snd ` set ps. member_ok s v"
  by (induction ps) (auto simp: members_def member_ok_def split: val.splits)

lemma inject_group:
  assumes g: "group_at s a" and x: "flat_key s x"
  shows "inyectKeysToQueries (n + 4) (Ref a) x s =
           Inr (Ref a, fold (inject_op x) (members (own_props s (Ref a))) s)"
proof -
  from g obtain ps where ps: "cells s a = Some (Object ps)" "a < next_addr s" "distinct (map fst ps)"
    "map_of ps ''queryKey'' = None" "list_all (operation s) (members ps)"
    by (auto simp: group_at_def split: option.splits obj.splits)
  have "for_in (process (Suc (Suc (Suc n))) x) a (map fst ps) s =
          Inr (fold (inject_member x) (map (\<lambda>name. the (map_of ps name)) (map fst ps)) s)"
    using ps(1,4,2) x members_member_ok [OF ps(5)] by (rule for_in_group) simp
  then have "for_in (process (Suc (Suc (Suc n))) x) a (map fst ps) s =
          Inr (fold (inject_op x) (members ps) s)"
    by (simp only: the_map_of_names [OF ps(3)] fold_inject_member)
  with ps show ?thesis
    by (simp add: inyectKeysToQueries_def fuel process.simps(2) [of "Suc (Suc (Suc n))"] own_props_def)
qed


lemma fold_inject_next: "next_addr s \<le> next_addr (fold (inject_op x) bs s)"
proof (induction bs arbitrary: s)
  case Nil
  show ?case by simp
next
  case (Cons b bs)
  have "next_addr s \<le> next_addr (inject_op x b s)" by (rule inject_op_next)
  also have "\<dots> \<le> next_addr (fold (inject_op x) bs (inject_op x b s))" by (rule Cons.IH)
  finally show ?case by simp
qed

lemma fold_inject_other:
  "c < next_addr s \<Longrightarrow> c \<notin> set bs \<Longrightarrow> cells (fold (inject_op x) bs s) c = cells s c"
proof (induction bs arbitrary: s)
  case Nil
  show ?case by simp
next
  case (Cons b bs)
  from Cons.prems have cb: "c \<noteq> b" and c: "c \<notin> set bs" by simp_all
  have "c < next_addr (inject_op x b s)"
    using Cons.prems(1) inject_op_next [of s x b] by simp
  then have "cells (fold (inject_op x) bs (inject_op x b s)) c = cells (inject_op x b s) c"
    using c by (rule Cons.IH)
  also have "\<dots> = cells s c" using cb Cons.prems(1) by (rule inject_op_other)
  finally show ?case by simp
qed

lemma fold_inject_flat:
  "flat_key s k \<Longrightarrow> cells (fold (inject_op x) bs s) k = cells s k"
proof (induction bs arbitrary: s)
  case Nil
  show ?case by simp
next
  case (Cons b bs)
  have "flat_key (inject_op x b s) k" using Cons.prems by (rule flat_key_inject_op)
  then have "cells (fold (inject_op x) bs (inject_op x b s)) k = cells (inject_op x b s) k"
    by (rule Cons.IH)
  also have "\<dots> = cells s k" using Cons.prems by (rule inject_op_flat_cell)
  finally show ?case by simp
qed

lemma fold_inject_settled:
  "inert_at s i \<Longrightarrow> i < next_addr s \<Longrightarrow> cells (fold (inject_op x) bs s) i = cells s i"
proof (induction bs arbitrary: s)
  case Nil
  show ?case by simp
next
  case (Cons b bs)
  have eq: "cells (inject_op x b s) i = cells s i"
    using Cons.prems by (rule inject_op_inert_cell)
  then have "inert_at (inject_op x b s) i = inert_at s i" by (rule inert_at_cong)
  with Cons.prems(1) have "inert_at (inject_op x b s) i" by simp
  moreover have "i < next_addr (inject_op x b s)"
    using Cons.prems(2) inject_op_next [of s x b] by simp
  ultimately have "cells (fold (inject_op x) bs (inject_op x b s)) i = cells (inject_op x b s) i"
    by (rule Cons.IH)
  with eq show ?case by simp
qed

lemma fold_inject_passive:
  "cells s a = Some (Object ps) \<Longrightarrow> map_of ps ''queryKey'' = None \<Longrightarrow> a < next_addr s
     \<Longrightarrow> cells (fold (inject_op x) bs s) a = Some (Object ps)"
proof (induction bs arbitrary: s)
  case Nil
  then show ?case by simp
next
  case (Cons b bs)
  have "cells (inject_op x b s) a = Some (Object ps)"
    using Cons.prems by (rule inject_op_passive)
  moreover have "a < next_addr (inject_op x b s)"
    using Cons.prems(3) inject_op_next [of s x b] by simp
  ultimately have "cells (fold (inject_op x) bs (inject_op x b s)) a = Some (Object ps)"
    using Cons.prems(2) by (intro Cons.IH)
  then show ?case by simp
qed

text \<open>What the injection leaves at one operation of the group.\<close>

lemma fold_inject_static:
  assumes bs: "distinct bs" "b \<in> set bs"
    and b: "b < next_addr s" "cells s b = Some (Object qs)"
    and q: "map_of qs ''queryKey'' = Some (Ref k)"
    and k: "flat_key s k" "cells s k = Some (Object kp)"
    and x: "flat_key s x" "cells s x = Some (Object ex)"
  shows "\<exists>m. cells (fold (inject_op x) bs s) b = Some (Object (AList.update ''queryKey'' (Ref m) qs))
           \<and> cells (fold (inject_op x) bs s) m = Some (Object (spread kp ex))"
proof -
  from bs obtain ys zs where split: "bs = ys @ b # zs" and ys: "b \<notin> set ys" and zs: "b \<notin> set zs"
    by (auto dest!: split_list)
  let ?s1 = "fold (inject_op x) ys s"
  let ?m = "next_addr ?s1"
  let ?s2 = "inject_op x b ?s1"
  have le: "next_addr s \<le> ?m" by (rule fold_inject_next)
  have b1: "cells ?s1 b = Some (Object qs)"
    using fold_inject_other [OF b(1) ys] b(2) by simp
  have k1: "cells ?s1 k = Some (Object kp)"
    using fold_inject_flat [OF k(1)] k(2) by simp
  have x1: "cells ?s1 x = Some (Object ex)"
    using fold_inject_flat [OF x(1)] x(2) by simp
  have neq: "b \<noteq> ?m" using b(1) le by simp
  have s2: "?s2 = set_prop b ''queryKey'' (Ref ?m) (snd (alloc (Object (spread kp ex)) ?s1))"
    using b1 q k1 x1 by (simp add: inject_op_def own_props_def alloc_def)
  have b2: "cells ?s2 b = Some (Object (AList.update ''queryKey'' (Ref ?m) qs))"
    using b1 neq by (simp add: s2 set_prop_def alloc_def)
  have m2: "cells ?s2 ?m = Some (Object (spread kp ex))"
    using b1 neq by (simp add: s2 set_prop_def alloc_def)
  have n2: "next_addr ?s2 = Suc ?m"
    using b1 neq by (simp add: s2 set_prop_def alloc_def)
  have kp: "list_all is_prim (map snd kp)" using k by (simp add: flat_key_def)
  have ex: "list_all is_prim (map snd ex)" using x by (simp add: flat_key_def)
  have fm: "flat_key ?s2 ?m"
    using m2 n2 kp ex by (simp add: flat_key_def values_spread distinct_spread)
  have "b < next_addr ?s2" using b(1) le n2 by simp
  then have "cells (fold (inject_op x) zs ?s2) b = cells ?s2 b"
    using zs by (rule fold_inject_other)
  moreover have "cells (fold (inject_op x) zs ?s2) ?m = cells ?s2 ?m"
    using fm by (rule fold_inject_flat)
  ultimately show ?thesis
    using b2 m2 by (auto simp: split)
qed

lemma fold_inject_dynamic:
  assumes bs: "distinct bs" "b \<in> set bs"
    and b: "b < next_addr s" "cells s b = Some (Object qs)"
    and q: "map_of qs ''queryKey'' = Some (Fn f)"
  shows "cells (fold (inject_op x) bs s) b =
           Some (Object (AList.update ''queryKey'' (Fn (Wrapper f x)) qs))"
proof -
  from bs obtain ys zs where split: "bs = ys @ b # zs" and ys: "b \<notin> set ys" and zs: "b \<notin> set zs"
    by (auto dest!: split_list)
  let ?s1 = "fold (inject_op x) ys s"
  let ?s2 = "inject_op x b ?s1"
  have le: "next_addr s \<le> next_addr ?s1" by (rule fold_inject_next)
  have b1: "cells ?s1 b = Some (Object qs)"
    using fold_inject_other [OF b(1) ys] b(2) by simp
  have b2: "cells ?s2 b = Some (Object (AList.update ''queryKey'' (Fn (Wrapper f x)) qs))"
    using b1 q by (simp add: inject_op_def set_prop_def)
  have "b < next_addr ?s2" using b(1) le inject_op_next [of ?s1 x b] by simp
  then have "cells (fold (inject_op x) zs ?s2) b = cells ?s2 b"
    using zs by (rule fold_inject_other)
  with b2 show ?thesis by (simp add: split)
qed

lemma inject_op_idle:
  assumes "cells s b = Some (Object qs)" "b < next_addr s"
    and "\<And>k. map_of qs ''queryKey'' \<noteq> Some (Ref k)" "\<And>f. map_of qs ''queryKey'' \<noteq> Some (Fn f)"
  shows "cells (inject_op x c s) b = Some (Object qs)"
proof (cases "b = c")
  case True
  show ?thesis
  proof (cases "map_of qs ''queryKey''" rule: queryKey_cases)
    case (static k)
    with assms(3) [of k] show ?thesis by simp
  next
    case (dynamic f)
    with assms(4) [of f] show ?thesis by simp
  next
    case none
    with assms(1) True show ?thesis by (simp add: inject_op_def)
  next
    case (prim p)
    with assms(1) True show ?thesis by (simp add: inject_op_def)
  qed
next
  case False
  then have "cells (inject_op x c s) b = cells s b" using assms(2) by (rule inject_op_other)
  with assms(1) show ?thesis by simp
qed

lemma fold_inject_idle:
  assumes "cells s b = Some (Object qs)" "b < next_addr s"
    and "\<And>k. map_of qs ''queryKey'' \<noteq> Some (Ref k)" "\<And>f. map_of qs ''queryKey'' \<noteq> Some (Fn f)"
  shows "cells (fold (inject_op x) bs s) b = Some (Object qs)"
  using assms(1,2)
proof (induction bs arbitrary: s)
  case Nil
  then show ?case by simp
next
  case (Cons c bs)
  have "cells (inject_op x c s) b = Some (Object qs)"
    using Cons.prems assms(3,4) by (rule inject_op_idle)
  moreover have "b < next_addr (inject_op x c s)"
    using Cons.prems(2) inject_op_next [of s x c] by simp
  ultimately have "cells (fold (inject_op x) bs (inject_op x c s)) b = Some (Object qs)"
    by (rule Cons.IH)
  then show ?case by simp
qed

lemma map_of_update_other:
  "p \<noteq> k \<Longrightarrow> map_of (AList.update k v qs) p = map_of qs p"
  by (simp add: update_conv')

lemma fold_inject_rest:
  assumes bs: "distinct bs" "b \<in> set bs"
    and b: "operation s b" "cells s b = Some (Object qs)" and x: "flat_key s x"
  shows "\<exists>qs'. cells (fold (inject_op x) bs s) b = Some (Object qs') \<and>
           (\<forall>p. p \<noteq> ''queryKey'' \<longrightarrow> map_of qs' p = map_of qs p)"
proof -
  from b have lt: "b < next_addr s"
    and key: "\<And>k. map_of qs ''queryKey'' = Some (Ref k) \<Longrightarrow> flat_key s k"
    by (auto elim!: operationD)
  show ?thesis
  proof (cases "map_of qs ''queryKey''" rule: queryKey_cases)
    case (static k)
    from key [OF static] obtain kp where kp: "cells s k = Some (Object kp)"
      by (rule flat_keyD) blast
    from x obtain ex where ex: "cells s x = Some (Object ex)"
      by (rule flat_keyD) blast
    from fold_inject_static [OF bs lt b(2) static key [OF static] kp x ex]
    obtain m where "cells (fold (inject_op x) bs s) b =
        Some (Object (AList.update ''queryKey'' (Ref m) qs))" by blast
    then show ?thesis by (simp add: map_of_update_other)
  next
    case (dynamic f)
    from fold_inject_dynamic [OF bs lt b(2) dynamic, of x]
    show ?thesis by (simp add: map_of_update_other)
  next
    case none
    have "cells (fold (inject_op x) bs s) b = Some (Object qs)"
      using b(2) lt by (rule fold_inject_idle) (simp_all add: none)
    then show ?thesis by simp
  next
    case (prim p)
    have "cells (fold (inject_op x) bs s) b = Some (Object qs)"
      using b(2) lt by (rule fold_inject_idle) (simp_all add: prim)
    then show ?thesis by simp
  qed
qed


lemma member_of_group:
  "map_of ps op = Some (Ref b) \<Longrightarrow> b \<in> set (members ps)"
  by (drule map_of_SomeD) (force simp: members_def)

lemma call_Wrapper:
  assumes "call m f args t = Inr (Ref r, u)"
    and "cells u r = Some (Object kp)" "distinct (map fst kp)"
    and "cells u x = Some (Object ex)" "distinct (map fst ex)"
  shows "\<exists>w u'. call (Suc m) (Wrapper f x) args t = Inr (w, u') \<and>
           object_at u' w = Some (map_of kp ++ map_of ex)"
  using assms
  by (simp add: is_plain_object_def alloc_def own_props_def object_at_def map_of_spread)

lemma map_add_twice: "(f ++ g) ++ g = f ++ g"
  by (simp add: map_add_def fun_eq_iff split: option.splits)

lemma fold_inject_flat_key:
  "flat_key s k \<Longrightarrow> flat_key (fold (inject_op x) bs s) k"
proof (induction bs arbitrary: s)
  case Nil
  then show ?case by simp
next
  case (Cons b bs)
  have "flat_key (inject_op x b s) k" using Cons.prems by (rule flat_key_inject_op)
  then have "flat_key (fold (inject_op x) bs (inject_op x b s)) k" by (rule Cons.IH)
  then show ?case by simp
qed

lemma fold_inject_operation:
  assumes "list_all (operation s) bs" "flat_key s x" "operation s c"
  shows "operation (fold (inject_op x) bs s) c"
  using assms
proof (induction bs arbitrary: s)
  case Nil
  then show ?case by simp
next
  case (Cons b bs)
  from Cons.prems(1) have b: "operation s b" and bs: "list_all (operation s) bs" by simp_all
  let ?t = "inject_op x b s"
  have "list_all (operation ?t) bs"
    using bs b Cons.prems(2) by (simp add: list_all_iff operation_inject_op)
  moreover have "flat_key ?t x" using Cons.prems(2) by (rule flat_key_inject_op)
  moreover have "operation ?t c" using b Cons.prems(2,3) by (rule operation_inject_op)
  ultimately have "operation (fold (inject_op x) bs ?t) c" by (rule Cons.IH)
  then show ?case by simp
qed

lemma group_at_fold_inject:
  assumes g: "group_at s a" and x: "flat_key s x" and ps: "cells s a = Some (Object ps)"
  shows "group_at (fold (inject_op x) (members ps) s) a"
proof -
  let ?t = "fold (inject_op x) (members ps) s"
  from g ps have a: "a < next_addr s" "map_of ps ''queryKey'' = None" "distinct (map fst ps)"
    and ops: "list_all (operation s) (members ps)" and bs: "distinct (members ps)"
    by (simp_all add: group_at_def)
  have ta: "cells ?t a = Some (Object ps)" using ps a(2,1) by (rule fold_inject_passive)
  have "a < next_addr ?t" using a(1) fold_inject_next [of s x "members ps"] by simp
  moreover have "list_all (operation ?t) (members ps)"
    using ops x by (simp add: list_all_iff fold_inject_operation)
  ultimately show ?thesis using ta a(2,3) bs by (simp add: group_at_def)
qed

lemma call_Wrapper_twice:
  assumes "call m f args t = Inr (Ref r, u)"
    and "cells u r = Some (Object kp)" "distinct (map fst kp)"
    and "cells u x = Some (Object ex)" "distinct (map fst ex)" "x < next_addr u"
  shows "\<exists>w u'. call (Suc (Suc m)) (Wrapper (Wrapper f x) x) args t = Inr (w, u') \<and>
           object_at u' w = Some (map_of kp ++ map_of ex) \<and>
           distinct (map fst (own_props u' w))"
  using assms
  by (simp add: is_plain_object_def alloc_def own_props_def object_at_def map_of_spread
      distinct_spread map_add_twice)


lemma map_of_update_same: "map_of (AList.update k v qs) k = Some v"
  by (simp add: update_conv')

text \<open>
  Claim C3 as first stated fails: after \<^verbatim>\<open>{auth: true}\<close> is injected into the group
  of \<^verbatim>\<open>"accounts"\<close>, the key under \<^verbatim>\<open>create.invalidates\<close> still has its
  \<^verbatim>\<open>entity\<close> field and has no \<^verbatim>\<open>auth\<close> field.
\<close>

theorem inject_invalidates_counterexample:
  "(case createQueryGroupCRUD ''accounts'' empty_state of (g, s1) \<Rightarrow>
    case alloc (Object (prims [(''auth'', Bool True)])) s1 of (extra, s2) \<Rightarrow>
    case inyectKeysToQueries 4 g extra s2 of
      Inl e \<Rightarrow> False
    | Inr (g', s3) \<Rightarrow>
        field_of (key_at s3 g' [''create'', ''invalidates'']) ''entity'' = Some (Prim (Str ''accounts'')) \<and>
        field_of (key_at s3 g' [''create'', ''invalidates'']) ''auth'' = None)"
  by (simp add: crud_simps empty_state_def prims_def field_of_def eval_nat_numeral)

text \<open>
  Injecting twice with the same extra mapping gives the keys one injection gives, for a
  group object whose properties refer to distinct operation objects with keys of
  primitive fields, and an extra mapping of primitive fields:
  the second injection returns the group without an error; a key stored under
  \<^verbatim>\<open>queryKey\<close> is the same mapping after the second injection as after the first,
  the original key with the extra fields on top, and the property names of the key
  object are distinct, so that each extra field is there once; a function under
  \<^verbatim>\<open>queryKey\<close> is wrapped twice, and whenever the original function returns a plain
  object the twice-wrapped function returns, for the same arguments in the same store,
  the same key as the once-wrapped function.
\<close>

theorem inject_group_twice:
  assumes g: "group_at s a" and x: "flat_key s x"
    and ps: "cells s a = Some (Object ps)" and mem: "map_of ps op = Some (Ref b)"
    and qs: "cells s b = Some (Object qs)" and ex: "cells s x = Some (Object ex)"
  shows "case inyectKeysToQueries (n + 4) (Ref a) x s of
      Inl e \<Rightarrow> False
    | Inr (g1, t1) \<Rightarrow> (case inyectKeysToQueries (n' + 4) g1 x t1 of
        Inl e \<Rightarrow> False
      | Inr (g2, t2) \<Rightarrow> g2 = g1 \<and>
          (\<forall>k kp. map_of qs ''queryKey'' = Some (Ref k) \<longrightarrow> cells s k = Some (Object kp) \<longrightarrow>
             key_at t1 g1 [op, ''queryKey''] = Some (map_of kp ++ map_of ex) \<and>
             key_at t2 g2 [op, ''queryKey''] = Some (map_of kp ++ map_of ex) \<and>
             (case get_path t2 g2 [op, ''queryKey''] of
                Inl e \<Rightarrow> False
              | Inr w \<Rightarrow> distinct (map fst (own_props t2 w)))) \<and>
          (\<forall>f. map_of qs ''queryKey'' = Some (Fn f) \<longrightarrow>
             get_path t2 g2 [op, ''queryKey''] = Inr (Fn (Wrapper (Wrapper f x) x))) \<and>
          (\<forall>f m args r u kp. map_of qs ''queryKey'' = Some (Fn f) \<longrightarrow>
             call m f args t2 = Inr (Ref r, u) \<longrightarrow> cells u r = Some (Object kp) \<longrightarrow>
             distinct (map fst kp) \<longrightarrow> cells u x = Some (Object ex) \<longrightarrow> x < next_addr u \<longrightarrow>
             produced_key (m + 2) t2 g2 op ''queryKey'' args = Some (map_of kp ++ map_of ex) \<and>
             (case call (Suc m) (Wrapper f x) args t2 of
                Inl e \<Rightarrow> False
              | Inr (w, u') \<Rightarrow> object_at u' w = Some (map_of kp ++ map_of ex))))"
proof -
  let ?bs = "members ps"
  let ?t1 = "fold (inject_op x) ?bs s"
  let ?t2 = "fold (inject_op x) ?bs ?t1"
  from g ps have a: "a < next_addr s" "map_of ps ''queryKey'' = None"
    and ops: "list_all (operation s) ?bs" and bs: "distinct ?bs"
    by (simp_all add: group_at_def)
  have run1: "inyectKeysToQueries (n + 4) (Ref a) x s = Inr (Ref a, ?t1)"
    using inject_group [OF g x, of n] ps by (simp add: own_props_def)
  have g1: "group_at ?t1 a" using g x ps by (rule group_at_fold_inject)
  have x1: "flat_key ?t1 x" using x by (rule fold_inject_flat_key)
  have a1: "cells ?t1 a = Some (Object ps)" using ps a(2,1) by (rule fold_inject_passive)
  have lt_a1: "a < next_addr ?t1" using g1 by (simp add: group_at_def)
  have run2: "inyectKeysToQueries (n' + 4) (Ref a) x ?t1 = Inr (Ref a, ?t2)"
    using inject_group [OF g1 x1, of n'] a1 by (simp add: own_props_def)
  have a2: "cells ?t2 a = Some (Object ps)" using a1 a(2) lt_a1 by (rule fold_inject_passive)
  have ex1: "cells ?t1 x = Some (Object ex)" using fold_inject_flat [OF x] ex by simp
  from x ex have dex: "distinct (map fst ex)" by (simp add: flat_key_def)
  have b: "b \<in> set ?bs" using mem by (rule member_of_group)
  with ops have op: "operation s b" by (simp add: list_all_iff)
  have op1: "operation ?t1 b" using ops x op by (rule fold_inject_operation)
  from op have lt: "b < next_addr s"
    and key: "\<And>k. map_of qs ''queryKey'' = Some (Ref k) \<Longrightarrow> flat_key s k"
    using qs by (auto elim!: operationD)
  from op1 have lt1: "b < next_addr ?t1" by (simp add: operation_def)
  have get1: "get_prop ?t1 (Ref a) op = Inr (Ref b)"
    using a1 mem by (simp add: get_prop_def own_props_def)
  have get2: "get_prop ?t2 (Ref a) op = Inr (Ref b)"
    using a2 mem by (simp add: get_prop_def own_props_def)
  have static: "key_at ?t1 (Ref a) [op, ''queryKey''] = Some (map_of kp ++ map_of ex) \<and>
      key_at ?t2 (Ref a) [op, ''queryKey''] = Some (map_of kp ++ map_of ex) \<and>
      (case get_path ?t2 (Ref a) [op, ''queryKey''] of
         Inl e \<Rightarrow> False
       | Inr w \<Rightarrow> distinct (map fst (own_props ?t2 w)))"
    if q: "map_of qs ''queryKey'' = Some (Ref k)" and kp: "cells s k = Some (Object kp)" for k kp
  proof -
    from key [OF q] kp have dkp: "distinct (map fst kp)" by (simp add: flat_key_def)
    from fold_inject_static [OF bs b lt qs q key [OF q] kp x ex]
    obtain m1 where b1: "cells ?t1 b = Some (Object (AList.update ''queryKey'' (Ref m1) qs))"
      and m1: "cells ?t1 m1 = Some (Object (spread kp ex))" by blast
    have q1: "map_of (AList.update ''queryKey'' (Ref m1) qs) ''queryKey'' = Some (Ref m1)"
      by (rule map_of_update_same)
    from op1 b1 q1 have f1: "flat_key ?t1 m1" by (auto elim!: operationD)
    from fold_inject_static [OF bs b lt1 b1 q1 f1 m1 x1 ex1]
    obtain m2 where b2: "cells ?t2 b = Some (Object (AList.update ''queryKey'' (Ref m2)
        (AList.update ''queryKey'' (Ref m1) qs)))"
      and m2: "cells ?t2 m2 = Some (Object (spread (spread kp ex) ex))" by blast
    have "key_at ?t1 (Ref a) [op, ''queryKey''] = Some (map_of kp ++ map_of ex)"
      using get1 b1 m1 dkp dex
      by (simp add: key_at_def get_path_def get_prop_def own_props_def object_at_def
          update_conv' map_of_spread)
    moreover have "key_at ?t2 (Ref a) [op, ''queryKey''] = Some (map_of kp ++ map_of ex)"
      using get2 b2 m2 dkp dex
      by (simp add: key_at_def get_path_def get_prop_def own_props_def object_at_def
          update_conv' map_of_spread distinct_spread map_add_twice)
    moreover have "case get_path ?t2 (Ref a) [op, ''queryKey''] of
         Inl e \<Rightarrow> False
       | Inr w \<Rightarrow> distinct (map fst (own_props ?t2 w))"
      using get2 b2 m2
      by (simp add: get_path_def get_prop_def own_props_def update_conv' distinct_spread)
    ultimately show ?thesis by blast
  qed
  have dynamic: "get_prop ?t2 (Ref b) ''queryKey'' = Inr (Fn (Wrapper (Wrapper f x) x))"
    if q: "map_of qs ''queryKey'' = Some (Fn f)" for f
  proof -
    have b1: "cells ?t1 b = Some (Object (AList.update ''queryKey'' (Fn (Wrapper f x)) qs))"
      using bs b lt qs q by (rule fold_inject_dynamic)
    have q1: "map_of (AList.update ''queryKey'' (Fn (Wrapper f x)) qs) ''queryKey'' =
        Some (Fn (Wrapper f x))"
      by (rule map_of_update_same)
    from fold_inject_dynamic [OF bs b lt1 b1 q1, of x]
    show ?thesis by (simp add: get_prop_def own_props_def update_conv')
  qed
  have path: "get_path ?t2 (Ref a) [op, ''queryKey''] = Inr (Fn (Wrapper (Wrapper f x) x))"
    if "map_of qs ''queryKey'' = Some (Fn f)" for f
    using get2 dynamic [OF that] by (simp add: get_path_def)
  have produced: "produced_key (m + 2) ?t2 (Ref a) op ''queryKey'' args = Some (map_of kp ++ map_of ex) \<and>
      (case call (Suc m) (Wrapper f x) args ?t2 of
         Inl e \<Rightarrow> False
       | Inr (w, u') \<Rightarrow> object_at u' w = Some (map_of kp ++ map_of ex))"
    if q: "map_of qs ''queryKey'' = Some (Fn f)" and c: "call m f args ?t2 = Inr (Ref r, u)"
      and r: "cells u r = Some (Object kp)" "distinct (map fst kp)"
      and ux: "cells u x = Some (Object ex)" "x < next_addr u"
    for f m args r u kp
  proof -
    from call_Wrapper_twice [OF c r ux(1) dex ux(2)]
    obtain w u' where "call (Suc (Suc m)) (Wrapper (Wrapper f x) x) args ?t2 = Inr (w, u')"
      and "object_at u' w = Some (map_of kp ++ map_of ex)" by blast
    then have "produced_key (m + 2) ?t2 (Ref a) op ''queryKey'' args = Some (map_of kp ++ map_of ex)"
      using get2 dynamic [OF q] by (simp add: produced_key_def invoke_def)
    moreover from call_Wrapper [OF c r ux(1) dex]
    have "case call (Suc m) (Wrapper f x) args ?t2 of
         Inl e \<Rightarrow> False
       | Inr (w, u') \<Rightarrow> object_at u' w = Some (map_of kp ++ map_of ex)"
      by auto
    ultimately show ?thesis ..
  qed
  from static path produced show ?thesis
    by (simp add: run1 run2)
qed


theorem inject_group_twice_witness:
  "(case createQueryGroupCRUD ''accounts'' empty_state of (g, s1) \<Rightarrow>
    case alloc (Object (prims [(''auth'', Bool True)])) s1 of (extra, s2) \<Rightarrow>
      g = Ref 10 \<and> extra = 11 \<and> group_at s2 10 \<and> flat_key s2 11 \<and>
      get_path s2 g [''list''] = Inr (Ref 3) \<and>
      get_path s2 g [''detail''] = Inr (Ref 4) \<and>
      (case inyectKeysToQueries 4 g extra s2 of
         Inl e \<Rightarrow> False
       | Inr (g1, s3) \<Rightarrow>
      (case inyectKeysToQueries 4 g1 extra s3 of
         Inl e \<Rightarrow> False
       | Inr (g2, s4) \<Rightarrow>
           key_at s4 g2 [''list'', ''queryKey''] =
             Some (map_of [(''entity'', Prim (Str ''accounts'')), (''method'', Prim (Str ''list'')),
                           (''auth'', Prim (Bool True))]) \<and>
           (case get_path s4 g2 [''list'', ''queryKey''] of
              Inl e \<Rightarrow> False
            | Inr k \<Rightarrow> own_props s4 k =
                [(''entity'', Prim (Str ''accounts'')), (''method'', Prim (Str ''list'')),
                 (''auth'', Prim (Bool True))]) \<and>
           get_path s4 g2 [''detail'', ''queryKey''] =
             Inr (Fn (Wrapper (Wrapper (DetailKey ''accounts'') 11) 11)) \<and>
           produced_key 3 s4 g2 ''detail'' ''queryKey'' [Prim (Str ''42'')] =
             Some (map_of [(''entity'', Prim (Str ''accounts'')), (''method'', Prim (Str ''detail'')),
                           (''id'', Prim (Str ''42'')), (''auth'', Prim (Bool True))]))))"
  using
    inject_group_twice [where s = "snd (alloc (Object (prims [(''auth'', Bool True)]))
                                   (snd (createQueryGroupCRUD ''accounts'' empty_state)))"
      and a = 10 and x = 11 and op = "''list''" and b = 3 and n = 0 and n' = 0
      and ps = "[(''all'', Ref 1), (''list'', Ref 3), (''detail'', Ref 4),
                 (''create'', Ref 7), (''update'', Ref 8), (''remove'', Ref 9)]"
      and qs = "[(''queryKey'', Ref 2), (''type'', Prim (Str ''query''))]"
      and ex = "prims [(''auth'', Bool True)]"]
    inject_group_twice [where s = "snd (alloc (Object (prims [(''auth'', Bool True)]))
                                   (snd (createQueryGroupCRUD ''accounts'' empty_state)))"
      and a = 10 and x = 11 and op = "''detail''" and b = 4 and n = 0 and n' = 0
      and ps = "[(''all'', Ref 1), (''list'', Ref 3), (''detail'', Ref 4),
                 (''create'', Ref 7), (''update'', Ref 8), (''remove'', Ref 9)]"
      and qs = "[(''queryKey'', Fn (DetailKey ''accounts'')), (''type'', Prim (Str ''query'')),
                 (''normalize'', Fn (DetailNormalize 3))]"
      and ex = "prims [(''auth'', Bool True)]"]
  by (simp add: crud_simps empty_state_def prims_def eval_nat_numeral fun_upd_twist
      group_at_def operation_def flat_key_def members_def settled_def inert_def is_ref_def
      spread_def assign_def)

section \<open>Injection into a CRUD group\<close>

text \<open>
  The CRUD group in particular. For every entity name and every extra mapping with
  primitive field values, injecting into the CRUD group merges the extra fields into
  every key stored under a \<^verbatim>\<open>queryKey\<close> property (\<^verbatim>\<open>all\<close>, \<^verbatim>\<open>list\<close>,
  \<^verbatim>\<open>create\<close>) and into every key a \<^verbatim>\<open>queryKey\<close> function produces
  (\<^verbatim>\<open>detail\<close>, \<^verbatim>\<open>update\<close>, \<^verbatim>\<open>remove\<close>), the extra fields winning on a
  conflict. The key stored under \<^verbatim>\<open>create.invalidates\<close> and the keys
  \<^verbatim>\<open>update.invalidates\<close> and \<^verbatim>\<open>remove.invalidates\<close> produce are what they were
  before the injection.
\<close>

theorem inject_crud_keys:
  assumes "distinct (map fst xs)"
  shows "case createQueryGroupCRUD E s of (g, s1) \<Rightarrow>
         case alloc (Object (prims xs)) s1 of (extra, s2) \<Rightarrow>
         case inyectKeysToQueries (n + 4) g extra s2 of
           Inl e \<Rightarrow> False
         | Inr (g', s3) \<Rightarrow> g' = g \<and>
             key_at s3 g [''all'', ''queryKey''] =
               Some (map_of [(''entity'', Prim (Str E))] ++ map_of (prims xs)) \<and>
             key_at s3 g [''list'', ''queryKey''] =
               Some (map_of [(''entity'', Prim (Str E)), (''method'', Prim (Str ''list''))] ++ map_of (prims xs)) \<and>
             key_at s3 g [''create'', ''queryKey''] =
               Some (map_of [(''entity'', Prim (Str E)), (''method'', Prim (Str ''create''))] ++ map_of (prims xs)) \<and>
             produced_key (m + 2) s3 g ''detail'' ''queryKey'' [i] =
               Some (map_of [(''entity'', Prim (Str E)), (''method'', Prim (Str ''detail'')), (''id'', i)]
                       ++ map_of (prims xs)) \<and>
             produced_key (m + 2) s3 g ''update'' ''queryKey'' [i] =
               Some (map_of [(''entity'', Prim (Str E)), (''method'', Prim (Str ''update'')), (''id'', i)]
                       ++ map_of (prims xs)) \<and>
             produced_key (m + 2) s3 g ''remove'' ''queryKey'' [i] =
               Some (map_of [(''entity'', Prim (Str E)), (''method'', Prim (Str ''remove'')), (''id'', i)]
                       ++ map_of (prims xs)) \<and>
             key_at s3 g [''create'', ''invalidates''] =
               Some (map_of [(''entity'', Prim (Str E)), (''method'', Prim (Str ''list''))]) \<and>
             produced_keys (m + 1) s3 g ''update'' ''invalidates'' [i] =
               Some [Some (map_of [(''entity'', Prim (Str E)), (''id'', i)]),
                     Some (map_of [(''entity'', Prim (Str E)), (''method'', Prim (Str ''list''))])] \<and>
             produced_keys (m + 1) s3 g ''remove'' ''invalidates'' [i] =
               Some [Some (map_of [(''entity'', Prim (Str E)), (''id'', i)]),
                     Some (map_of [(''entity'', Prim (Str E)), (''method'', Prim (Str ''list''))])]"
  using assms by (simp add: crud_simps)

theorem inject_crud_keys_witness:
  "distinct (map fst [(''auth'', Bool True)]) \<and>
   (case createQueryGroupCRUD ''accounts'' empty_state of (g, s1) \<Rightarrow>
    case alloc (Object (prims [(''auth'', Bool True)])) s1 of (extra, s2) \<Rightarrow>
    case inyectKeysToQueries 4 g extra s2 of
      Inl e \<Rightarrow> False
    | Inr (g', s3) \<Rightarrow>
        key_at s3 g' [''create'', ''queryKey''] =
          Some (map_of [(''entity'', Prim (Str ''accounts'')), (''method'', Prim (Str ''create'')),
                        (''auth'', Prim (Bool True))]) \<and>
        produced_key 2 s3 g' ''update'' ''queryKey'' [Prim (Str ''42'')] =
          Some (map_of [(''entity'', Prim (Str ''accounts'')), (''method'', Prim (Str ''update'')),
                        (''id'', Prim (Str ''42'')), (''auth'', Prim (Bool True))]) \<and>
        key_at s3 g' [''create'', ''invalidates''] =
          Some (map_of [(''entity'', Prim (Str ''accounts'')), (''method'', Prim (Str ''list''))]) \<and>
        produced_keys 1 s3 g' ''update'' ''invalidates'' [Prim (Str ''42'')] =
          Some [Some (map_of [(''entity'', Prim (Str ''accounts'')), (''id'', Prim (Str ''42''))]),
                Some (map_of [(''entity'', Prim (Str ''accounts'')), (''method'', Prim (Str ''list''))])])"
proof -
  have h: "distinct (map fst [(''auth'', Bool True)])" by simp
  show ?thesis
    using h inject_crud_keys [OF h, where E = "''accounts''" and s = empty_state and n = 0 and m = 0
        and i = "Prim (Str ''42'')"]
    by (simp add: crud_simps empty_state_def prims_def eval_nat_numeral fun_upd_twist)
qed

text \<open>
  End to end, for an extra mapping of primitive fields: in the group built for an entity
  and then injected with the extra mapping, every static \<^verbatim>\<open>queryKey\<close> is the original key with the extra fields
  merged on top (the extra fields win on a conflict), and every \<^verbatim>\<open>queryKey\<close>
  function returns, for any identifier, its original result merged the same way. For
  \<^verbatim>\<open>"accounts"\<close> and \<^verbatim>\<open>{auth: true}\<close>, \<^verbatim>\<open>list.queryKey\<close> is
  \<^verbatim>\<open>{entity: "accounts", method: "list", auth: true}\<close> and
  \<^verbatim>\<open>detail.queryKey("42")\<close> is
  \<^verbatim>\<open>{entity: "accounts", method: "detail", id: "42", auth: true}\<close>.
\<close>

theorem inject_queryKeys:
  assumes "distinct (map fst xs)"
  shows "case createQueryGroupCRUD E s of (g, s1) \<Rightarrow>
         case alloc (Object (prims xs)) s1 of (extra, s2) \<Rightarrow>
         case inyectKeysToQueries (n + 4) g extra s2 of
           Inl e \<Rightarrow> False
         | Inr (g', s3) \<Rightarrow> g' = g \<and>
             key_at s3 g [''all'', ''queryKey''] =
               Some (map_of [(''entity'', Prim (Str E))] ++ map_of (prims xs)) \<and>
             key_at s3 g [''list'', ''queryKey''] =
               Some (map_of [(''entity'', Prim (Str E)), (''method'', Prim (Str ''list''))] ++ map_of (prims xs)) \<and>
             key_at s3 g [''create'', ''queryKey''] =
               Some (map_of [(''entity'', Prim (Str E)), (''method'', Prim (Str ''create''))] ++ map_of (prims xs)) \<and>
             produced_key (m + 2) s3 g ''detail'' ''queryKey'' [i] =
               Some (map_of [(''entity'', Prim (Str E)), (''method'', Prim (Str ''detail'')), (''id'', i)]
                       ++ map_of (prims xs)) \<and>
             produced_key (m + 2) s3 g ''update'' ''queryKey'' [i] =
               Some (map_of [(''entity'', Prim (Str E)), (''method'', Prim (Str ''update'')), (''id'', i)]
                       ++ map_of (prims xs)) \<and>
             produced_key (m + 2) s3 g ''remove'' ''queryKey'' [i] =
               Some (map_of [(''entity'', Prim (Str E)), (''method'', Prim (Str ''remove'')), (''id'', i)]
                       ++ map_of (prims xs))"
  using assms
  by (simp add: crud_simps)

theorem inject_queryKeys_witness:
  "distinct (map fst [(''auth'', Bool True)]) \<and>
   (case createQueryGroupCRUD ''accounts'' empty_state of (g, s1) \<Rightarrow>
    case alloc (Object (prims [(''auth'', Bool True)])) s1 of (extra, s2) \<Rightarrow>
    case inyectKeysToQueries 4 g extra s2 of
      Inl e \<Rightarrow> False
    | Inr (g', s3) \<Rightarrow>
        key_at s3 g' [''list'', ''queryKey''] =
          Some (map_of [(''entity'', Prim (Str ''accounts'')), (''method'', Prim (Str ''list'')),
                        (''auth'', Prim (Bool True))]) \<and>
        produced_key 2 s3 g' ''detail'' ''queryKey'' [Prim (Str ''42'')] =
          Some (map_of [(''entity'', Prim (Str ''accounts'')), (''method'', Prim (Str ''detail'')),
                        (''id'', Prim (Str ''42'')), (''auth'', Prim (Bool True))]))"
proof -
  have h: "distinct (map fst [(''auth'', Bool True)])" by simp
  show ?thesis
    using h inject_queryKeys [OF h, where E = "''accounts''" and s = empty_state and n = 0 and m = 0
        and i = "Prim (Str ''42'')"]
    by (simp add: crud_simps empty_state_def prims_def eval_nat_numeral fun_upd_twist)
qed

text \<open>
  The CRUD group in particular: the second injection returns without an error, every
  static \<^verbatim>\<open>queryKey\<close> is the same mapping after the second injection as after the
  first (each field once: the property names of the key object are distinct), and every
  twice-wrapped \<^verbatim>\<open>queryKey\<close> function returns, for the same arguments, the key the
  once-wrapped function returns.
\<close>

theorem inject_twice:
  assumes "distinct (map fst xs)"
  shows "case createQueryGroupCRUD E s of (g, s1) \<Rightarrow>
         case alloc (Object (prims xs)) s1 of (extra, s2) \<Rightarrow>
         case inyectKeysToQueries (n + 4) g extra s2 of
           Inl e \<Rightarrow> False
         | Inr (g1, s3) \<Rightarrow>
         case inyectKeysToQueries (n + 4) g1 extra s3 of
           Inl e \<Rightarrow> False
         | Inr (g2, s4) \<Rightarrow> g2 = g \<and>
             key_at s4 g [''all'', ''queryKey''] = key_at s3 g [''all'', ''queryKey''] \<and>
             key_at s4 g [''list'', ''queryKey''] = key_at s3 g [''list'', ''queryKey''] \<and>
             key_at s4 g [''create'', ''queryKey''] = key_at s3 g [''create'', ''queryKey''] \<and>
             key_at s4 g [''list'', ''queryKey''] =
               Some (map_of [(''entity'', Prim (Str E)), (''method'', Prim (Str ''list''))] ++ map_of (prims xs)) \<and>
             produced_key (m + 3) s4 g ''detail'' ''queryKey'' [i] =
               produced_key (m + 2) s3 g ''detail'' ''queryKey'' [i] \<and>
             produced_key (m + 3) s4 g ''update'' ''queryKey'' [i] =
               produced_key (m + 2) s3 g ''update'' ''queryKey'' [i] \<and>
             produced_key (m + 3) s4 g ''remove'' ''queryKey'' [i] =
               produced_key (m + 2) s3 g ''remove'' ''queryKey'' [i] \<and>
             produced_key (m + 3) s4 g ''detail'' ''queryKey'' [i] =
               Some (map_of [(''entity'', Prim (Str E)), (''method'', Prim (Str ''detail'')), (''id'', i)]
                       ++ map_of (prims xs)) \<and>
             (case get_path s4 g [''list'', ''queryKey''] of
                Inl e \<Rightarrow> False
              | Inr k \<Rightarrow> distinct (map fst (own_props s4 k)))"
  using assms by (simp add: crud_simps distinct_spread map_add_twice)

theorem inject_twice_witness:
  "distinct (map fst [(''auth'', Bool True)]) \<and>
   (case createQueryGroupCRUD ''accounts'' empty_state of (g, s1) \<Rightarrow>
    case alloc (Object (prims [(''auth'', Bool True)])) s1 of (extra, s2) \<Rightarrow>
    case inyectKeysToQueries 4 g extra s2 of
      Inl e \<Rightarrow> False
    | Inr (g1, s3) \<Rightarrow>
    case inyectKeysToQueries 4 g1 extra s3 of
      Inl e \<Rightarrow> False
    | Inr (g2, s4) \<Rightarrow>
        key_at s4 g2 [''list'', ''queryKey''] =
          Some (map_of [(''entity'', Prim (Str ''accounts'')), (''method'', Prim (Str ''list'')),
                        (''auth'', Prim (Bool True))]) \<and>
        (case get_path s4 g2 [''list'', ''queryKey''] of
           Inl e \<Rightarrow> False
         | Inr k \<Rightarrow> own_props s4 k =
             [(''entity'', Prim (Str ''accounts'')), (''method'', Prim (Str ''list'')),
              (''auth'', Prim (Bool True))]) \<and>
        produced_key 3 s4 g2 ''detail'' ''queryKey'' [Prim (Str ''42'')] =
          Some (map_of [(''entity'', Prim (Str ''accounts'')), (''method'', Prim (Str ''detail'')),
                        (''id'', Prim (Str ''42'')), (''auth'', Prim (Bool True))]))"
proof -
  have h: "distinct (map fst [(''auth'', Bool True)])" by simp
  show ?thesis
    using h inject_twice [OF h, where E = "''accounts''" and s = empty_state and n = 0 and m = 0
        and i = "Prim (Str ''42'')"]
    by (simp add: crud_simps empty_state_def prims_def eval_nat_numeral fun_upd_twist spread_def assign_def)
qed

section \<open>The normalize callbacks and the cache\<close>

lemma reify_leaf: "\<not> is_ref v \<Longrightarrow> reify (Suc n) s v = Some (leaf v)"
  by (cases v) (simp_all add: is_ref_def)

lemma sequence_total: "(\<And>x. x \<in> set xs \<Longrightarrow> f x = Some (g x)) \<Longrightarrow> sequence f xs = Some (map g xs)"
  by (induction xs) simp_all

lemma map_of_zip_leaf:
  "map_of (zip (map fst ps) (map (f \<circ> snd) ps)) = map_option f \<circ> map_of ps"
  by (induction ps) (auto simp: fun_eq_iff)

lemma reify_flat:
  assumes "cells s k = Some (Object ps)" and "list_all (\<lambda>v. \<not> is_ref v) (map snd ps)"
  shows "reify (Suc (Suc n)) s (Ref k) = Some (TObj (map_option leaf \<circ> map_of ps))"
proof -
  have "sequence (reify (Suc n) s) (map snd ps) = Some (map leaf (map snd ps))"
    using assms(2) by (intro sequence_total reify_leaf) (auto simp: list_all_iff)
  then show ?thesis
    using assms(1) by (simp add: map_of_zip_leaf)
qed

lemma reify_flat_at:
  "flat_at s k \<Longrightarrow> reify (Suc (Suc n)) s (Ref k) = Some (TObj (map_option leaf \<circ> map_of (own_props s (Ref k))))"
proof -
  assume "flat_at s k"
  then obtain ps where "cells s k = Some (Object ps)" "list_all (\<lambda>v. \<not> is_ref v) (map snd ps)"
    by (auto simp: flat_at_def split: option.splits obj.splits)
  then show ?thesis
    using reify_flat [of s k ps n] by (simp only: own_props_def val.case option.case obj.case)
qed

lemma slot_neq:
  "map_option leaf (m1 k) \<noteq> map_option leaf (m2 k) \<Longrightarrow> slot_of m1 \<noteq> slot_of m2"
  by (auto simp: slot_of_def fun_eq_iff)

lemma methods_differ:
  "m1 ''method'' \<noteq> m2 ''method'' \<Longrightarrow> ((m1 :: string \<Rightarrow> tree option) = m2) = False"
  by auto

lemma map_items_total:
  "(\<And>x. x \<in> set xs \<Longrightarrow> f x = Inr (g x)) \<Longrightarrow> map_items f xs = Inr (map g xs)"
  by (induction xs) simp_all

lemma filter_items_total:
  "(\<And>x. x \<in> set xs \<Longrightarrow> f x = Inr (P x)) \<Longrightarrow> filter_items f xs = Inr (filter P xs)"
  by (induction xs) simp_all

lemma get_prop_readable:
  "\<not> nullish v \<Longrightarrow> get_prop s v ''id'' = Inr (id_of s v)"
  by (cases v) (auto simp: nullish_def get_prop_def id_of_def split: prim.splits option.splits)

lemma same_id_readable:
  "\<not> nullish item \<Longrightarrow> \<not> nullish data \<Longrightarrow> same_id s item data = Inr (id_of s item = id_of s data)"
  by (simp add: same_id_def get_prop_readable)

lemma replace_item_array:
  assumes "cells t r = Some (Array items)" and "\<not> nullish data" and "\<forall>item \<in> set items. \<not> nullish item"
  shows "replace_item data (Ref r) t =
    (case alloc (Array (map (\<lambda>item. if id_of t item = id_of t data then data else item) items)) t of
       (r', t1) \<Rightarrow> Inr (Ref r', t1))"
proof -
  have "map_items (\<lambda>item. case same_id t item data of Inl e \<Rightarrow> Inl e
                          | Inr b \<Rightarrow> Inr (if b then data else item)) items =
        Inr (map (\<lambda>item. if id_of t item = id_of t data then data else item) items)"
    using assms(2,3) by (intro map_items_total) (simp add: same_id_readable)
  then show ?thesis
    using assms(1) by (simp add: replace_item_def receiver_def)
qed

lemma drop_item_array:
  assumes "cells t r = Some (Array items)" and "\<not> nullish data" and "\<forall>item \<in> set items. \<not> nullish item"
  shows "drop_item data (Ref r) t =
    (case alloc (Array (filter (\<lambda>item. id_of t item \<noteq> id_of t data) items)) t of
       (r', t1) \<Rightarrow> Inr (Ref r', t1))"
proof -
  have "filter_items (\<lambda>item. case same_id t item data of Inl e \<Rightarrow> Inl e | Inr b \<Rightarrow> Inr (\<not> b)) items =
        Inr (filter (\<lambda>item. id_of t item \<noteq> id_of t data) items)"
    using assms(2,3) by (intro filter_items_total) (simp add: same_id_readable)
  then show ?thesis
    using assms(1) by (simp add: drop_item_def receiver_def)
qed

lemma absent_items [simp]:
  "replace_item data (Prim Undefined) t = Inr (Prim Undefined, t)"
  "drop_item data (Prim Undefined) t = Inr (Prim Undefined, t)"
  by (simp_all add: replace_item_def drop_item_def)

lemmas cache_simps = normalized_def update_list_def set_detail_def resolveKey_def setQueryData_def
  setQueryDataValue_def append_item_def reify_flat_at flat_at_def slot_of_def is_ref_def methods_differ
  nullish_def id_of_def

text \<open>
  Claim C5. For every result \<open>data\<close> that exposes an \<^verbatim>\<open>id\<close>,
  \<^verbatim>\<open>create.normalize(data)\<close> called while the list cache entry is absent sets the list
  entry to the one-element array \<^verbatim>\<open>[data]\<close> and the detail entry of \<^verbatim>\<open>data.id\<close> to
  \<open>data\<close>; called while the list entry holds an array, it sets the entry to that
  array's items, in order, followed by \<open>data\<close>, sets the detail entry the same way, and
  changes no object that existed before. The data object and the cached array are
  objects of the store the group is built in; the identifier is a primitive.
\<close>

theorem create_normalize:
  assumes d: "cells s d = Some (Object dps)" "d < next_addr s"
    and i: "map_of dps ''id'' = Some (Prim i)"
  shows "(cache s (slot_of (map_of [(''entity'', Prim (Str E)), (''method'', Prim (Str ''list''))])) = Prim Undefined \<longrightarrow>
         (case createQueryGroupCRUD E s of (g, s1) \<Rightarrow>
          case normalized (n + 4) g ''create'' (Ref d) s1 of
            None \<Rightarrow> False
          | Some s2 \<Rightarrow>
              array_at s2 (cache s2 (slot_of (map_of [(''entity'', Prim (Str E)), (''method'', Prim (Str ''list''))])))
                = Some [Ref d] \<and>
              cache s2 (slot_of (map_of [(''entity'', Prim (Str E)), (''method'', Prim (Str ''detail'')),
                                         (''id'', Prim i)])) = Ref d)) \<and>
         (cache s (slot_of (map_of [(''entity'', Prim (Str E)), (''method'', Prim (Str ''list''))])) = Ref r \<and>
          r < next_addr s \<and> cells s r = Some (Array items) \<longrightarrow>
         (case createQueryGroupCRUD E s of (g, s1) \<Rightarrow>
          case normalized (n + 4) g ''create'' (Ref d) s1 of
            None \<Rightarrow> False
          | Some s2 \<Rightarrow>
              array_at s2 (cache s2 (slot_of (map_of [(''entity'', Prim (Str E)), (''method'', Prim (Str ''list''))])))
                = Some (items @ [Ref d]) \<and>
              cache s2 (slot_of (map_of [(''entity'', Prim (Str E)), (''method'', Prim (Str ''detail'')),
                                         (''id'', Prim i)])) = Ref d \<and>
              (\<forall>a. a < next_addr s \<longrightarrow> cells s2 a = cells s a)))"
  using assms by (simp add: crud_simps cache_simps)


theorem create_normalize_witness:
  "(case createQueryGroupCRUD ''accounts'' demo_absent of (g, s1) \<Rightarrow>
    case normalized 4 g ''create'' (Ref 0) s1 of
      None \<Rightarrow> False
    | Some s2 \<Rightarrow>
        array_at s2 (cache s2 (slot_of (map_of [(''entity'', Prim (Str ''accounts'')),
                                                 (''method'', Prim (Str ''list''))]))) = Some [Ref 0] \<and>
        cache s2 (slot_of (map_of [(''entity'', Prim (Str ''accounts'')), (''method'', Prim (Str ''detail'')),
                                   (''id'', Prim (Str ''x''))])) = Ref 0) \<and>
   (case createQueryGroupCRUD ''accounts'' demo_present of (g, s1) \<Rightarrow>
    case normalized 4 g ''create'' (Ref 0) s1 of
      None \<Rightarrow> False
    | Some s2 \<Rightarrow>
        array_at s2 (cache s2 (slot_of (map_of [(''entity'', Prim (Str ''accounts'')),
                                                 (''method'', Prim (Str ''list''))]))) = Some [Ref 1, Ref 2, Ref 0] \<and>
        cache s2 (slot_of (map_of [(''entity'', Prim (Str ''accounts'')), (''method'', Prim (Str ''detail'')),
                                   (''id'', Prim (Str ''a''))])) = Ref 0 \<and>
        cells s2 3 = Some (Array [Ref 1, Ref 2]))"
proof -
  have a: "cells demo_absent 0 = Some (Object [(''id'', Prim (Str ''x'')), (''name'', Prim (Str ''new''))])"
    "0 < next_addr demo_absent"
    "map_of [(''id'', Prim (Str ''x'')), (''name'', Prim (Str ''new''))] ''id'' = Some (Prim (Str ''x''))"
    "cache demo_absent (slot_of (map_of [(''entity'', Prim (Str ''accounts'')), (''method'', Prim (Str ''list''))]))
       = Prim Undefined"
    by (simp_all add: demo_absent_def)
  have p: "cells demo_present 0 = Some (Object [(''id'', Prim (Str ''a'')), (''name'', Prim (Str ''new''))])"
    "0 < next_addr demo_present"
    "map_of [(''id'', Prim (Str ''a'')), (''name'', Prim (Str ''new''))] ''id'' = Some (Prim (Str ''a''))"
    "cache demo_present (slot_of (map_of [(''entity'', Prim (Str ''accounts'')), (''method'', Prim (Str ''list''))]))
       = Ref 3 \<and> 3 < next_addr demo_present \<and> cells demo_present 3 = Some (Array [Ref 1, Ref 2])"
    by (simp_all add: demo_present_def)
  note 1 = create_normalize [OF a(1,2,3), where E = "''accounts''" and n = 0,
      THEN conjunct1, THEN mp, OF a(4)]
  note 2 = create_normalize [OF p(1,2,3), where E = "''accounts''" and n = 0 and r = 3
      and items = "[Ref 1, Ref 2]", THEN conjunct2, THEN mp, OF p(4)]
  have n: "next_addr demo_present = 4" "cells demo_present 3 = Some (Array [Ref 1, Ref 2])"
    by (simp_all add: demo_present_def)
  from 1 2 show ?thesis
    by (auto simp: n split: prod.splits option.splits)
qed


lemma setQueryData_flat:
  "flat_at s k \<Longrightarrow> setQueryData (Suc (Suc n)) (Ref k) upd s =
     (case upd (cache s (slot_of (map_of (own_props s (Ref k))))) s of
        Inl e \<Rightarrow> Inl e
      | Inr (v, s1) \<Rightarrow> Inr (s1\<lparr>cache := (cache s1)(slot_of (map_of (own_props s (Ref k))) := v)\<rparr>))"
  unfolding slot_of_def by (simp add: setQueryData_def reify_flat_at del: reify.simps)

lemma prims_not_ref: "list_all (\<lambda>v. \<not> is_ref v) (map snd (prims xs))"
  by (induction xs) (auto simp: prims_def is_ref_def)

lemma is_ref_simps: "is_ref (Ref a) = True" "is_ref (Prim p) = False" "is_ref (Fn f) = False"
  by (simp_all add: is_ref_def)

lemmas injected_cache_simps = normalized_def update_list_def set_detail_def resolveKey_def
  setQueryData_flat setQueryDataValue_def append_item_def flat_at_def is_ref_simps
  nullish_def id_of_def prims_not_ref

text \<open>
  Claim C9. After a CRUD group is built and injected in place, the normalize callbacks
  of \<^verbatim>\<open>create\<close>, \<^verbatim>\<open>update\<close>, \<^verbatim>\<open>remove\<close> and \<^verbatim>\<open>detail\<close> work on the cache
  entries named by the injected keys: each reads the list entry under
  \<^verbatim>\<open>{entity: E, method: "list", ...extra}\<close> and writes its result there, the detail
  entry it writes is the one under \<^verbatim>\<open>{entity: E, method: "detail", id, ...extra}\<close>,
  and every other cache entry, the ones under the keys before injection among them, is
  what it was. The callbacks hold the addresses of the \<^verbatim>\<open>list\<close> and \<^verbatim>\<open>detail\<close>
  operation objects and read their \<^verbatim>\<open>queryKey\<close> when they run; the injector has
  rewritten that property of the same objects.
\<close>

theorem normalize_after_injection:
  assumes xs: "distinct (map fst xs)"
    and d: "cells s d = Some (Object dps)" "d < next_addr s"
    and i: "map_of dps ''id'' = Some (Prim i)"
    and old: "cache s (slot_of (map_of [(''entity'', Prim (Str E)), (''method'', Prim (Str ''list''))] ++ map_of (prims xs))) = Ref r"
      "r < next_addr s" "cells s r = Some (Array items)"
    and items: "\<forall>item \<in> set items. \<not> nullish item"
    and distinct_slots: "slot_of (map_of [(''entity'', Prim (Str E)), (''method'', Prim (Str ''list''))] ++ map_of (prims xs)) \<noteq>
                         slot_of (map_of [(''entity'', Prim (Str E)), (''method'', Prim (Str ''detail'')), (''id'', Prim i)] ++ map_of (prims xs))"
  shows "case createQueryGroupCRUD E s of (g, s1) \<Rightarrow>
         case alloc (Object (prims xs)) s1 of (extra, s2) \<Rightarrow>
         case inyectKeysToQueries (n + 4) g extra s2 of
           Inl e \<Rightarrow> False
         | Inr (g', s3) \<Rightarrow>
             (case normalized (m + 5) g' ''create'' (Ref d) s3 of
                None \<Rightarrow> False
              | Some s4 \<Rightarrow>
                  array_at s4 (cache s4 (slot_of (map_of [(''entity'', Prim (Str E)), (''method'', Prim (Str ''list''))] ++ map_of (prims xs)))) = Some (items @ [Ref d]) \<and>
                  cache s4 (slot_of (map_of [(''entity'', Prim (Str E)), (''method'', Prim (Str ''detail'')), (''id'', Prim i)] ++ map_of (prims xs))) = Ref d \<and>
                  (\<forall>t. t \<noteq> slot_of (map_of [(''entity'', Prim (Str E)), (''method'', Prim (Str ''list''))] ++ map_of (prims xs)) \<and>
                     t \<noteq> slot_of (map_of [(''entity'', Prim (Str E)), (''method'', Prim (Str ''detail'')), (''id'', Prim i)] ++ map_of (prims xs))
                  \<longrightarrow> cache s4 t = cache s t)) \<and>
             (case normalized (m + 5) g' ''update'' (Ref d) s3 of
                None \<Rightarrow> False
              | Some s4 \<Rightarrow>
                  array_at s4 (cache s4 (slot_of (map_of [(''entity'', Prim (Str E)), (''method'', Prim (Str ''list''))] ++ map_of (prims xs)))) =
                    Some (map (\<lambda>item. if id_of s3 item = Prim i then Ref d else item) items) \<and>
                  cache s4 (slot_of (map_of [(''entity'', Prim (Str E)), (''method'', Prim (Str ''detail'')), (''id'', Prim i)] ++ map_of (prims xs))) = Ref d \<and>
                  (\<forall>t. t \<noteq> slot_of (map_of [(''entity'', Prim (Str E)), (''method'', Prim (Str ''list''))] ++ map_of (prims xs)) \<and>
                     t \<noteq> slot_of (map_of [(''entity'', Prim (Str E)), (''method'', Prim (Str ''detail'')), (''id'', Prim i)] ++ map_of (prims xs))
                  \<longrightarrow> cache s4 t = cache s t)) \<and>
             (case normalized (m + 5) g' ''remove'' (Ref d) s3 of
                None \<Rightarrow> False
              | Some s4 \<Rightarrow>
                  array_at s4 (cache s4 (slot_of (map_of [(''entity'', Prim (Str E)), (''method'', Prim (Str ''list''))] ++ map_of (prims xs)))) =
                    Some (filter (\<lambda>item. id_of s3 item \<noteq> Prim i) items) \<and>
                  cache s4 (slot_of (map_of [(''entity'', Prim (Str E)), (''method'', Prim (Str ''detail'')), (''id'', Prim i)] ++ map_of (prims xs))) = Prim Undefined \<and>
                  (\<forall>t. t \<noteq> slot_of (map_of [(''entity'', Prim (Str E)), (''method'', Prim (Str ''list''))] ++ map_of (prims xs)) \<and>
                     t \<noteq> slot_of (map_of [(''entity'', Prim (Str E)), (''method'', Prim (Str ''detail'')), (''id'', Prim i)] ++ map_of (prims xs))
                  \<longrightarrow> cache s4 t = cache s t)) \<and>
             (case normalized (m + 5) g' ''detail'' (Ref d) s3 of
                None \<Rightarrow> False
              | Some s4 \<Rightarrow>
                  array_at s4 (cache s4 (slot_of (map_of [(''entity'', Prim (Str E)), (''method'', Prim (Str ''list''))] ++ map_of (prims xs)))) =
                    Some (map (\<lambda>item. if id_of s3 item = Prim i then Ref d else item) items) \<and>
                  (\<forall>t. t \<noteq> slot_of (map_of [(''entity'', Prim (Str E)), (''method'', Prim (Str ''list''))] ++ map_of (prims xs)) \<and>
                     t \<noteq> slot_of (map_of [(''entity'', Prim (Str E)), (''method'', Prim (Str ''detail'')), (''id'', Prim i)] ++ map_of (prims xs))
                  \<longrightarrow> cache s4 t = cache s t))"
  using assms
  by (simp add: crud_simps injected_cache_simps replace_item_array drop_item_array)

theorem normalize_after_injection_witness:
  "distinct (map fst [(''auth'', Bool True)]) \<and> \<not> nullish (Ref 1) \<and> \<not> nullish (Ref 2) \<and>
   slot_of (map_of [(''entity'', Prim (Str ''accounts'')), (''method'', Prim (Str ''list''))] ++ map_of (prims [(''auth'', Bool True)])) \<noteq>
   slot_of (map_of [(''entity'', Prim (Str ''accounts'')), (''method'', Prim (Str ''detail'')), (''id'', Prim (Str ''a''))] ++ map_of (prims [(''auth'', Bool True)])) \<and>
   (case createQueryGroupCRUD ''accounts'' demo_injected of (g, s1) \<Rightarrow>
    case alloc (Object (prims [(''auth'', Bool True)])) s1 of (extra, s2) \<Rightarrow>
    case inyectKeysToQueries 4 g extra s2 of
      Inl e \<Rightarrow> False
    | Inr (g', s3) \<Rightarrow>
        (case normalized 5 g' ''create'' (Ref 0) s3 of
           None \<Rightarrow> False
         | Some s4 \<Rightarrow>
             array_at s4 (cache s4 (slot_of (map_of [(''entity'', Prim (Str ''accounts'')), (''method'', Prim (Str ''list''))] ++ map_of (prims [(''auth'', Bool True)])))) = Some [Ref 1, Ref 2, Ref 0] \<and>
             cache s4 (slot_of (map_of [(''entity'', Prim (Str ''accounts'')), (''method'', Prim (Str ''detail'')), (''id'', Prim (Str ''a''))] ++ map_of (prims [(''auth'', Bool True)]))) = Ref 0 \<and>
             cache s4 (slot_of (map_of [(''entity'', Prim (Str ''accounts'')), (''method'', Prim (Str ''list''))])) = Prim Undefined))"
proof -
  have h: "distinct (map fst [(''auth'', Bool True)])" by simp
  have r: "\<forall>item \<in> set [Ref 1, Ref 2]. \<not> nullish item" by (simp add: nullish_def)
  have p: "cells demo_injected 0 = Some (Object [(''id'', Prim (Str ''a'')), (''name'', Prim (Str ''new''))])"
    "0 < next_addr demo_injected"
    "map_of [(''id'', Prim (Str ''a'')), (''name'', Prim (Str ''new''))] ''id'' = Some (Prim (Str ''a''))"
    by (simp_all add: demo_injected_def)
  have ne: "slot_of (map_of [(''entity'', Prim (Str ''accounts'')), (''method'', Prim (Str ''list''))] ++ map_of (prims [(''auth'', Bool True)])) \<noteq>
            slot_of (map_of [(''entity'', Prim (Str ''accounts'')), (''method'', Prim (Str ''detail'')), (''id'', Prim (Str ''a''))] ++ map_of (prims [(''auth'', Bool True)]))"
    by (rule slot_neq [where k = "''method''"]) (simp add: prims_def)
  have ne0: "slot_of (map_of [(''entity'', Prim (Str ''accounts'')), (''method'', Prim (Str ''list''))]) \<noteq> slot_of (map_of [(''entity'', Prim (Str ''accounts'')), (''method'', Prim (Str ''list''))] ++ map_of (prims [(''auth'', Bool True)]))"
    "slot_of (map_of [(''entity'', Prim (Str ''accounts'')), (''method'', Prim (Str ''list''))]) \<noteq> slot_of (map_of [(''entity'', Prim (Str ''accounts'')), (''method'', Prim (Str ''detail'')), (''id'', Prim (Str ''a''))] ++ map_of (prims [(''auth'', Bool True)]))"
    by (rule slot_neq [where k = "''auth''"], simp add: prims_def)+
  have c: "cache demo_injected (slot_of (map_of [(''entity'', Prim (Str ''accounts'')), (''method'', Prim (Str ''list''))] ++ map_of (prims [(''auth'', Bool True)]))) = Ref 3" "3 < next_addr demo_injected"
    "cells demo_injected 3 = Some (Array [Ref 1, Ref 2])"
    by (simp_all add: demo_injected_def)
  have c0: "cache demo_injected (slot_of (map_of [(''entity'', Prim (Str ''accounts'')), (''method'', Prim (Str ''list''))])) = Prim Undefined"
    using ne0 by (simp add: demo_injected_def)
  note t = normalize_after_injection [OF h p c r ne, where n = 0 and m = 0]
  obtain g s1 where g: "createQueryGroupCRUD ''accounts'' demo_injected = (g, s1)"
    by (cases "createQueryGroupCRUD ''accounts'' demo_injected")
  obtain x s2 where x: "alloc (Object (prims [(''auth'', Bool True)])) s1 = (x, s2)"
    by (cases "alloc (Object (prims [(''auth'', Bool True)])) s1")
  from t g x obtain g' s3 where i: "inyectKeysToQueries 4 g x s2 = Inr (g', s3)"
    by (cases "inyectKeysToQueries 4 g x s2") auto
  from t g x i obtain s4 where n: "normalized 5 g' ''create'' (Ref 0) s3 = Some s4"
    by (cases "normalized 5 g' ''create'' (Ref 0) s3") auto
  from t g x i n ne0 c0 have
    "array_at s4 (cache s4 (slot_of (map_of [(''entity'', Prim (Str ''accounts'')), (''method'', Prim (Str ''list''))] ++ map_of (prims [(''auth'', Bool True)])))) = Some [Ref 1, Ref 2, Ref 0] \<and>
     cache s4 (slot_of (map_of [(''entity'', Prim (Str ''accounts'')), (''method'', Prim (Str ''detail'')), (''id'', Prim (Str ''a''))] ++ map_of (prims [(''auth'', Bool True)]))) = Ref 0 \<and>
     cache s4 (slot_of (map_of [(''entity'', Prim (Str ''accounts'')), (''method'', Prim (Str ''list''))])) = Prim Undefined"
    by simp
  with g x i n h ne show ?thesis
    by (simp add: nullish_def)
qed

section \<open>Injection into a nested structure\<close>

text \<open>
  The injector on a structure of any depth. The walk is followed on shapes: an array is
  replaced by a fresh array of the walked elements; an object has its \<^verbatim>\<open>queryKey\<close>
  rewritten, and then every property walked in turn, the rewritten \<^verbatim>\<open>queryKey\<close>
  among them. No object of the shape is reached twice, so a step writes into one object
  of the shape and leaves the others as they are.
\<close>

lemma indexed_numbered: "indexed xs = numbered xs"
  by (simp add: indexed_def numbered_def)

lemma frame_refl: "frame s F s"
  by (simp add: frame_def)

lemma frame_mono: "frame s F s' \<Longrightarrow> F \<subseteq> G \<Longrightarrow> frame s G s'"
  by (auto simp: frame_def)

lemma frame_trans:
  assumes "frame s F s1" "frame s1 G s2"
  shows "frame s (F \<union> G) s2"
  unfolding frame_def
proof (intro conjI allI impI)
  show "next_addr s \<le> next_addr s2" using assms by (simp add: frame_def)
  show "cache s2 = cache s" using assms by (simp add: frame_def)
next
  fix c assume c: "c < next_addr s" and ne: "cells s2 c \<noteq> cells s c"
  show "c \<in> F \<union> G"
  proof (cases "cells s1 c = cells s c")
    case True
    with ne have "cells s2 c \<noteq> cells s1 c" by simp
    moreover have "c < next_addr s1" using c assms(1) by (simp add: frame_def)
    ultimately show ?thesis using assms(2) by (simp add: frame_def)
  next
    case False
    with c assms(1) show ?thesis by (simp add: frame_def)
  qed
  show "\<exists>ps. cells s c = Some (Object ps)"
  proof (cases "cells s1 c = cells s c")
    case True
    with ne have "cells s2 c \<noteq> cells s1 c" by simp
    moreover have "c < next_addr s1" using c assms(1) by (simp add: frame_def)
    ultimately have "\<exists>ps. cells s1 c = Some (Object ps)" using assms(2) by (simp add: frame_def)
    with True show ?thesis by simp
  next
    case False
    with c assms(1) show ?thesis by (simp add: frame_def)
  qed
qed

lemma frame_alloc: "frame s {} (snd (alloc ob s))"
  by (simp add: frame_def alloc_def)

lemma frame_set_prop: "frame s {a} (set_prop a p v s)"
  by (auto simp: frame_def set_prop_def split: option.splits obj.splits)

lemma frame_cell: "frame s F s' \<Longrightarrow> c < next_addr s \<Longrightarrow> c \<notin> F \<Longrightarrow> cells s' c = cells s c"
  by (auto simp: frame_def)

lemma frame_array:
  "frame s F s' \<Longrightarrow> c < next_addr s \<Longrightarrow> cells s c = Some (Array xs) \<Longrightarrow> cells s' c = Some (Array xs)"
  by (auto simp: frame_def)

lemma frame_next: "frame s F s' \<Longrightarrow> c < next_addr s \<Longrightarrow> c < next_addr s'"
  by (simp add: frame_def)

lemma holds_frame:
  "holds s g \<Longrightarrow> frame s F s' \<Longrightarrow> set (objs g) \<inter> F = {} \<Longrightarrow> holds s' g"
proof (induction g)
  case (SPrim p)
  show ?case by simp
next
  case (SFn f)
  show ?case by simp
next
  case (SArr a ts)
  from SArr.prems(1) have a: "a < next_addr s" "cells s a = Some (Array (map root ts))"
    and ts: "\<And>t. t \<in> set ts \<Longrightarrow> holds s t" by simp_all
  have "holds s' t" if "t \<in> set ts" for t
    using that ts SArr.prems(2,3) by (intro SArr.IH) auto
  then show ?case
    using a frame_array [OF SArr.prems(2) a] frame_next [OF SArr.prems(2) a(1)] by simp
next
  case (SObj a fs)
  from SObj.prems(1) have a: "a < next_addr s" "cells s a = Some (Object (rootf fs))"
    "distinct (map fst fs)"
    and fs: "\<And>p c. (p, c) \<in> set fs \<Longrightarrow> holds s c" by auto
  have "holds s' c" if "(p, c) \<in> set fs" for p c
  proof -
    have "set (objs c) \<inter> F = {}" using that SObj.prems(3) by fastforce
    with that fs SObj.prems(2) show ?thesis
      by (intro SObj.IH [of "(p, c)" c]) auto
  qed
  moreover have "cells s' a = cells s a"
    using SObj.prems(2) a(1) SObj.prems(3) by (intro frame_cell) auto
  ultimately show ?case
    using a frame_next [OF SObj.prems(2) a(1)] by auto
qed

lemma objs_bound: "holds s g \<Longrightarrow> b \<in> set (objs g) \<Longrightarrow> b < next_addr s"
proof (induction g)
  case (SArr a ts)
  then show ?case by auto
next
  case (SObj a fs)
  show ?case
  proof (cases "b = a")
    case True
    with SObj.prems(1) show ?thesis by simp
  next
    case False
    with SObj.prems(2) obtain p c where pc: "(p, c) \<in> set fs" "b \<in> set (objs c)" by auto
    with SObj.prems(1) have "holds s c" by auto
    with pc show ?thesis by (intro SObj.IH [of "(p, c)" c]) auto
  qed
qed simp_all

lemma plain_objs: "plain c \<Longrightarrow> objs c = []"
  by (induction c) auto

lemma holds_plain_frame: "plain c \<Longrightarrow> holds s c \<Longrightarrow> frame s F s' \<Longrightarrow> holds s' c"
  by (rule holds_frame) (simp_all add: plain_objs)

lemma map_update:
  "map (\<lambda>(p, c). (p, f p c)) (AList.update k v l) =
     AList.update k (f k v) (map (\<lambda>(p, c). (p, f p c)) l)"
  by (induction l) auto

lemma map_assign:
  "map (\<lambda>(p, c). (p, f p c)) (assign t src) =
     assign (map (\<lambda>(p, c). (p, f p c)) t) (map (\<lambda>(p, c). (p, f p c)) src)"
  unfolding assign_def
proof (induction src arbitrary: t)
  case Nil
  show ?case by simp
next
  case (Cons e src)
  obtain k v where e: "e = (k, v)" by (cases e)
  show ?case by (simp add: e Cons.IH map_update)
qed

lemma map_spread:
  "map (\<lambda>(p, c). (p, f p c)) (spread a b) =
     spread (map (\<lambda>(p, c). (p, f p c)) a) (map (\<lambda>(p, c). (p, f p c)) b)"
  by (simp add: spread_def map_assign)

lemma set_update: "set (AList.update k v l) \<subseteq> insert (k, v) (set l)"
  by (induction l) auto

lemma set_assign: "set (assign t src) \<subseteq> set t \<union> set src"
  unfolding assign_def
proof (induction src arbitrary: t)
  case Nil
  show ?case by simp
next
  case (Cons e src)
  obtain k v where e: "e = (k, v)" by (cases e)
  have "set (fold (\<lambda>(k, v). AList.update k v) src (AList.update k v t))
          \<subseteq> set (AList.update k v t) \<union> set src" by (rule Cons.IH)
  with set_update [of k v t] show ?case by (auto simp: e)
qed

lemma set_spread: "set (spread a b) \<subseteq> set a \<union> set b"
proof -
  have "set (assign [] a) \<subseteq> set a" using set_assign [of "[]" a] by simp
  with set_assign [of "assign [] a" b] show ?thesis by (auto simp: spread_def)
qed

lemma assign_fresh:
  "distinct (map fst (t @ src)) \<Longrightarrow> assign t src = t @ src"
  unfolding assign_def
proof (induction src arbitrary: t)
  case Nil
  show ?case by simp
next
  case (Cons e src)
  obtain k v where e: "e = (k, v)" by (cases e)
  from Cons.prems have k: "k \<notin> fst ` set t" by (auto simp: e)
  then have u: "AList.update k v t = t @ [(k, v)]"
    by (induction t) auto
  from Cons.prems have "distinct (map fst ((t @ [(k, v)]) @ src))" by (simp add: e)
  then have "fold (\<lambda>(k, v). AList.update k v) src (t @ [(k, v)]) = (t @ [(k, v)]) @ src"
    by (rule Cons.IH)
  then show ?case by (simp add: e u)
qed

lemma assign_Nil: "distinct (map fst a) \<Longrightarrow> assign [] a = a"
  using assign_fresh [of "[]" a] by simp

lemma objs_fields: "concat (map (\<lambda>(p, c). objs c) fs) = concat (map objs (map snd fs))"
  by (induction fs) auto

lemma field_objs_simps [simp]:
  "field_objs [] = []"
  "field_objs ((p, c) # l) = objs c @ field_objs l"
  "field_objs (l @ r) = field_objs l @ field_objs r"
  by (simp_all add: field_objs_def)

lemma objs_update:
  assumes "distinct (field_objs l @ objs v)"
  shows "distinct (field_objs (AList.update k v l)) \<and>
         set (field_objs (AList.update k v l)) \<subseteq> set (field_objs l) \<union> set (objs v)"
  using assms
proof (induction l)
  case Nil
  then show ?case by simp
next
  case (Cons e l)
  obtain q c where e: "e = (q, c)" by (cases e)
  from Cons.prems have d: "distinct (field_objs l @ objs v)"
    and c: "distinct (objs c)" "set (objs c) \<inter> set (field_objs l) = {}"
      "set (objs c) \<inter> set (objs v) = {}"
    by (auto simp: e)
  note ih = Cons.IH [OF d]
  show ?case
  proof (cases "q = k")
    case True
    with d c show ?thesis by (auto simp: e)
  next
    case False
    from ih c(2,3) have "set (objs c) \<inter> set (field_objs (AList.update k v l)) = {}"
      by blast
    with False ih c(1) show ?thesis by (auto simp: e)
  qed
qed

lemma objs_assign:
  assumes "distinct (field_objs (t @ src))"
  shows "distinct (field_objs (assign t src)) \<and>
         set (field_objs (assign t src)) \<subseteq> set (field_objs (t @ src))"
  using assms unfolding assign_def
proof (induction src arbitrary: t)
  case Nil
  then show ?case by simp
next
  case (Cons e src)
  obtain k v where e: "e = (k, v)" by (cases e)
  from Cons.prems have tv: "distinct (field_objs t @ objs v)"
    and rest: "distinct (field_objs src)"
    and dis: "(set (field_objs t) \<union> set (objs v)) \<inter> set (field_objs src) = {}"
    by (auto simp: e)
  note u = objs_update [OF tv, of k]
  from u dis have "set (field_objs (AList.update k v t)) \<inter> set (field_objs src) = {}" by blast
  with u rest have "distinct (field_objs (AList.update k v t @ src))" by simp
  note ih = Cons.IH [OF this]
  from ih u have "set (field_objs (fold (\<lambda>(k, v). AList.update k v) src (AList.update k v t)))
      \<subseteq> set (field_objs (t @ (k, v) # src))" by auto
  with ih show ?case by (simp add: e)
qed

lemma field_objs_plain: "\<forall>(p, c) \<in> set b. objs c = [] \<Longrightarrow> field_objs b = []"
  by (induction b) auto

lemma objs_spread:
  assumes "\<forall>(p, c) \<in> set b. objs c = []" "distinct (field_objs a)"
  shows "distinct (field_objs (spread a b)) \<and> set (field_objs (spread a b)) \<subseteq> set (field_objs a)"
proof -
  note b = field_objs_plain [OF assms(1)]
  from objs_assign [of "[]" a] assms(2)
  have 1: "distinct (field_objs (assign [] a))"
    and 2: "set (field_objs (assign [] a)) \<subseteq> set (field_objs a)"
    by simp_all
  from 1 b have 3: "distinct (field_objs (assign [] a @ b))" by simp
  from objs_assign [OF 3] 2 b show ?thesis by (auto simp: spread_def)
qed

lemma update_middle:
  "p \<notin> fst ` set d \<Longrightarrow> AList.update p v (d @ (p, w) # r) = d @ (p, v) # r"
  by (induction d) auto

lemma map_of_middle:
  "p \<notin> fst ` set d \<Longrightarrow> map_of (d @ (p, w) # r) p = Some w"
  by (induction d) auto

lemma split_field:
  assumes "map_of fs p = Some c"
  obtains d r where "fs = d @ (p, c) # r" "p \<notin> fst ` set d"
  using assms
proof (induction fs arbitrary: thesis)
  case Nil
  then show ?case by simp
next
  case (Cons e fs)
  obtain q w where e: "e = (q, w)" by (cases e)
  show ?case
  proof (cases "q = p")
    case True
    with Cons.prems(2) e have "w = c" by simp
    with True e show ?thesis by (intro Cons.prems(1) [of "[]" fs]) simp_all
  next
    case False
    with Cons.prems(2) e have "map_of fs p = Some c" by simp
    then obtain d r where "fs = d @ (p, c) # r" "p \<notin> fst ` set d"
      by (rule Cons.IH [rotated]) blast
    with False e show ?thesis by (intro Cons.prems(1) [of "e # d" r]) auto
  qed
qed

lemma fold_max_ge: "x \<in> set xs \<Longrightarrow> x \<le> fold max xs (m::nat)"
proof (induction xs arbitrary: m)
  case Nil
  then show ?case by simp
next
  case (Cons y xs)
  have mono: "m \<le> fold max xs m" for m :: nat
    by (induction xs arbitrary: m) (auto intro: order_trans [OF max.cobounded2])
  show ?case
  proof (cases "x = y")
    case True
    have "y \<le> max y m" by simp
    also have "\<dots> \<le> fold max xs (max y m)" by (rule mono)
    finally show ?thesis using True by simp
  next
    case False
    with Cons show ?thesis by simp
  qed
qed

lemma depth_field: "(p, t) \<in> set fs \<Longrightarrow> depth (DObj fs) < Suc n \<Longrightarrow> depth t < n"
  using fold_max_ge [of "depth t" "map (\<lambda>(p, t). depth t) fs" 0] by force

lemma depth_elem: "t \<in> set ts \<Longrightarrow> depth (DArr ts) < Suc n \<Longrightarrow> depth t < n"
  using fold_max_ge [of "depth t" "map depth ts" 0] by force

declare index_name.simps [simp del]

lemma digit_not_y: "k < 10 \<Longrightarrow> digit k \<noteq> CHR ''y''"
proof
  assume k: "k < 10" and "digit k = CHR ''y''"
  then have "of_char (char_of (48 + k)) = (of_char (CHR ''y'') :: nat)" by simp
  then have "(48 + k) mod 256 = (121::nat)" by (simp only: of_char_of) simp
  with k show False by simp
qed

lemma last_index_name: "last (index_name n) = digit (n mod 10)"
  by (subst index_name.simps) simp

lemma index_name_not_queryKey: "index_name n \<noteq> ''queryKey''"
proof
  assume "index_name n = ''queryKey''"
  then have "last (index_name n) = CHR ''y''" by simp
  then show False using digit_not_y [of "n mod 10"] by (simp add: last_index_name del: digit.simps)
qed

lemma numbered_names: "(p, t) \<in> set (numbered ts) \<Longrightarrow> p \<noteq> ''queryKey''"
proof -
  assume "(p, t) \<in> set (numbered ts)"
  then have "p \<in> set (map index_name [0..<length ts])"
    unfolding numbered_def by (rule set_zip_leftD)
  then obtain n where "p = index_name n" by auto
  then show ?thesis by (simp only: index_name_not_queryKey not_False_eq_True)
qed

lemma numbered_map: "numbered (map f ts) = map (\<lambda>(p, t). (p, f t)) (numbered ts)"
  by (simp add: numbered_def zip_map2 case_prod_unfold)

lemma numbered_values: "map snd (numbered ts) = ts"
  by (simp add: numbered_def)

lemma plain_erase: "plain c \<Longrightarrow> dplain (erase c)"
  by (induction c) auto

lemma leaf_erase: "leaf_shape c \<Longrightarrow> dleaf (erase c)"
  by (cases c) auto

lemma extra_tree_erase: "extra_at s x exs \<Longrightarrow> extra_tree (erasef exs)"
  by (auto simp: extra_at_def extra_tree_def plain_erase leaf_erase)

lemma injected_plain: "dplain t \<Longrightarrow> injected x ex t = t"
  by (induction t) (auto simp: map_idI)

lemma injected_key_leaf:
  "dleaf t \<Longrightarrow> injected_key x ex t = (case t of DFn f \<Rightarrow> DFn (Wrapper f x) | _ \<Rightarrow> t)"
  by (cases t) auto

lemma injected_extra:
  assumes "extra_tree ex"
  shows "map (\<lambda>(p, t). (p, if p = ''queryKey'' then injected_key x ex t else injected x ex t)) ex
           = stamped x ex"
  unfolding stamped_def
proof (rule map_cong [OF refl])
  fix e assume e: "e \<in> set ex"
  obtain p t where pt: "e = (p, t)" by (cases e)
  with e assms have "dplain t" "p = ''queryKey'' \<longrightarrow> dleaf t"
    by (auto simp: extra_tree_def)
  then show "(case e of (p, t) \<Rightarrow> (p, if p = ''queryKey'' then injected_key x ex t else injected x ex t)) =
             (case e of (p, t) \<Rightarrow> (p, if p = ''queryKey''
                then (case t of DFn f \<Rightarrow> DFn (Wrapper f x) | _ \<Rightarrow> t) else t))"
    by (simp add: pt injected_plain injected_key_leaf)
qed

lemma injected_numbered:
  "map (\<lambda>(p, t). (p, if p = ''queryKey'' then injected_key x ex t else injected x ex t)) (numbered ts)
     = numbered (map (injected x ex) ts)"
  unfolding numbered_map
  by (rule map_cong [OF refl]) (auto dest: numbered_names)

lemma injected_merged:
  assumes "extra_tree ex"
  shows "injected x ex (merged x ex t) = injected_key x ex t"
proof (cases t)
  case (DArr ts)
  then show ?thesis
    by (simp add: map_spread injected_extra [OF assms] injected_numbered)
next
  case (DObj q)
  then show ?thesis
    by (simp add: map_spread injected_extra [OF assms])
qed simp_all

lemma erase_rewritten: "erase (rewritten m x exs c) = merged x (erasef exs) (erase c)"
  by (cases c) (simp_all add: map_spread numbered_map)

lemma holds_SObjI:
  assumes "a < next_addr s" "distinct (map fst fs)" "cells s a = Some (Object (rootf fs))"
    and "\<And>p c. (p, c) \<in> set fs \<Longrightarrow> holds s c"
  shows "holds s (SObj a fs)"
  using assms by auto

lemma holds_SObjD:
  assumes "holds s (SObj a fs)"
  shows "a < next_addr s" "distinct (map fst fs)" "cells s a = Some (Object (rootf fs))"
    and "\<And>p c. (p, c) \<in> set fs \<Longrightarrow> holds s c"
  using assms by auto

lemma objs_SObj [simp]: "objs (SObj a fs) = a # concat (map objs (map snd fs))"
  by (simp add: objs_fields)

declare objs.simps(4) [simp del]

lemma objs_child: "(p, c) \<in> set fs \<Longrightarrow> set (objs c) \<subseteq> set (concat (map objs (map snd fs)))"
  by force

lemma extra_at_frame:
  assumes "extra_at s x exs" "frame s F s'" "x \<notin> F"
  shows "extra_at s' x exs"
proof -
  from assms(1) have h: "holds s (SObj x exs)"
    and p: "\<forall>(p, c) \<in> set exs. plain c \<and> (p = ''queryKey'' \<longrightarrow> leaf_shape c)"
    by (simp_all add: extra_at_def)
  from p have "concat (map objs (map snd exs)) = []"
    by (auto simp: plain_objs)
  then have "set (objs (SObj x exs)) \<inter> F = {}"
    using assms(3) by simp
  with h assms(2) have "holds s' (SObj x exs)" by (rule holds_frame)
  with p show ?thesis by (simp add: extra_at_def)
qed

lemma extra_at_bound: "extra_at s x exs \<Longrightarrow> x < next_addr s"
  by (simp add: extra_at_def)

lemma field_read:
  assumes "holds s (SObj a (d @ (p, c) # r))"
  shows "has_own s a p" "get_prop s (Ref a) p = Inr (root c)"
proof -
  from assms have dn: "distinct (map fst (d @ (p, c) # r))"
    and cell: "cells s a = Some (Object (rootf (d @ (p, c) # r)))" by simp_all
  from dn have "p \<notin> fst ` set (rootf d)" by force
  then have "map_of (rootf d @ (p, root c) # rootf r) p = Some (root c)"
    by (rule map_of_middle)
  with cell show "has_own s a p" "get_prop s (Ref a) p = Inr (root c)"
    by (simp_all add: has_own_def get_prop_def own_props_def)
qed

lemma field_write:
  assumes "cells s a = Some (Object (rootf (d @ (p, c) # r)))" "distinct (map fst (d @ (p, c) # r))"
  shows "cells (set_prop a p (root c') s) a = Some (Object (rootf (d @ (p, c') # r)))"
proof -
  from assms(2) have "p \<notin> fst ` set (rootf d)" by force
  then have "AList.update p (root c') (rootf d @ (p, root c) # rootf r) = rootf d @ (p, root c') # rootf r"
    by (rule update_middle)
  with assms(1) show ?thesis by (simp add: set_prop_def)
qed

lemma set_prop_next: "next_addr (set_prop a p v s) = next_addr s"
  by (simp add: set_prop_def split: option.splits obj.splits)

lemma sound_step:
  assumes "sound n x exs" "holds s c" "distinct (objs c)" "extra_at s x exs" "x \<notin> set (objs c)"
    "depth (injected x (erasef exs) (erase c)) < n"
  obtains c' s1 where "process n x (root c) s = Inr (root c', s1)" "holds s1 c'" "distinct (objs c')"
    "erase c' = injected x (erasef exs) (erase c)" "frame s (set (objs c)) s1"
    "set (objs c') \<subseteq> set (objs c) \<union> {b. next_addr s \<le> b}"
    "\<And>a fs. c = SObj a fs \<Longrightarrow> root c' = Ref a"
proof -
  from assms(1) have "holds s c \<longrightarrow> distinct (objs c) \<longrightarrow> extra_at s x exs \<longrightarrow>
     x \<notin> set (objs c) \<longrightarrow> depth (injected x (erasef exs) (erase c)) < n \<longrightarrow>
     (\<exists>g' s'. process n x (root c) s = Inr (root g', s') \<and> outcome x (erasef exs) s c s' g')"
    unfolding sound_def by (elim allE)
  with assms(2-6) obtain c' s1 where r: "process n x (root c) s = Inr (root c', s1)"
    and o: "outcome x (erasef exs) s c s1 c'" by blast
  from o have "holds s1 c'" "distinct (objs c')"
    "erase c' = injected x (erasef exs) (erase c)" "frame s (set (objs c)) s1"
    "set (objs c') \<subseteq> set (objs c) \<union> {b. next_addr s \<le> b}"
    "\<And>a fs. c = SObj a fs \<Longrightarrow> root c' = Ref a"
    unfolding outcome_def by simp_all
  with r show thesis by (rule that)
qed

lemma for_in_fields:
  assumes ih: "sound n x exs"
  shows "holds s (SObj a (d @ todo)) \<Longrightarrow> distinct (objs (SObj a (d @ todo))) \<Longrightarrow>
     extra_at s x exs \<Longrightarrow> x \<notin> set (objs (SObj a (d @ todo))) \<Longrightarrow>
     (\<forall>(p, c) \<in> set todo. depth (injected x (erasef exs) (erase c)) < n) \<Longrightarrow>
     \<exists>todo' s'. for_in (process n x) a (map fst todo) s = Inr s' \<and>
        holds s' (SObj a (d @ todo')) \<and> distinct (objs (SObj a (d @ todo'))) \<and>
        erasef todo' = map (\<lambda>(p, c). (p, injected x (erasef exs) (erase c))) todo \<and>
        frame s (set (objs (SObj a todo))) s' \<and>
        set (objs (SObj a todo')) \<subseteq> set (objs (SObj a todo)) \<union> {b. next_addr s \<le> b}"
proof (induction todo arbitrary: d s)
  case Nil
  then show ?case
    by (intro exI [of _ "[]"] exI [of _ s]) (simp add: frame_refl)
next
  case (Cons e rest)
  obtain p c where e: "e = (p, c)" by (cases e)
  let ?fs = "d @ (p, c) # rest"
  note h = Cons.prems(1) [unfolded e]
  note dist = Cons.prems(2) [unfolded e]
  note ext = Cons.prems(3)
  note xo = Cons.prems(4) [unfolded e]
  from h have a: "a < next_addr s" and names: "distinct (map fst ?fs)"
    and cell: "cells s a = Some (Object (rootf ?fs))"
    and kids: "\<And>q k. (q, k) \<in> set ?fs \<Longrightarrow> holds s k"
    by (rule holds_SObjD)+
  have hc: "holds s c" by (rule kids [of p]) simp
  from dist have dc: "distinct (objs c)" and ac: "a \<notin> set (objs c)"
    and od: "set (objs c) \<inter> set (concat (map objs (map snd d))) = {}"
    and orest: "set (objs c) \<inter> set (concat (map objs (map snd rest))) = {}"
    and dd: "distinct (concat (map objs (map snd d)))"
    and dr: "distinct (concat (map objs (map snd rest)))"
    and ddr: "set (concat (map objs (map snd d))) \<inter> set (concat (map objs (map snd rest))) = {}"
    and ad: "a \<notin> set (concat (map objs (map snd d)))"
    and ar: "a \<notin> set (concat (map objs (map snd rest)))"
    by auto
  from xo have xc: "x \<notin> set (objs c)" and xa: "x \<noteq> a"
    and xd: "x \<notin> set (concat (map objs (map snd d)))"
    and xr: "x \<notin> set (concat (map objs (map snd rest)))" by auto
  from Cons.prems(5) have depth_c: "depth (injected x (erasef exs) (erase c)) < n"
    and depth_rest: "\<forall>(p, c) \<in> set rest. depth (injected x (erasef exs) (erase c)) < n"
    by (auto simp: e)
  from ih hc dc ext xc depth_c obtain c' s1 where
    run: "process n x (root c) s = Inr (root c', s1)" and hc': "holds s1 c'" and dc': "distinct (objs c')"
    and ec': "erase c' = injected x (erasef exs) (erase c)" and f1: "frame s (set (objs c)) s1"
    and oc': "set (objs c') \<subseteq> set (objs c) \<union> {b. next_addr s \<le> b}"
    by (rule sound_step)
  let ?s2 = "set_prop a p (root c') s1"
  let ?fs' = "d @ (p, c') # rest"
  have f12: "frame s1 {a} ?s2" by (rule frame_set_prop)
  have n1: "next_addr s \<le> next_addr s1" using f1 by (simp add: frame_def)
  have n2: "next_addr ?s2 = next_addr s1" by (rule set_prop_next)
  have cell1: "cells s1 a = Some (Object (rootf ?fs))"
    using frame_cell [OF f1 a ac] cell by simp
  have cell2: "cells ?s2 a = Some (Object (rootf ?fs'))"
    using cell1 names by (rule field_write)
  have bound: "b < next_addr s" if "b \<in> set (concat (map objs (map snd d))) \<union> set (concat (map objs (map snd rest)))" for b
  proof -
    from that obtain e where e: "e \<in> set d \<union> set rest" "b \<in> set (objs (snd e))" by auto
    obtain q k where qk: "e = (q, k)" by (cases e)
    with e have "(q, k) \<in> set ?fs" "b \<in> set (objs k)" by auto
    from kids [OF this(1)] this(2) show ?thesis by (rule objs_bound)
  qed
  have ac': "a \<notin> set (objs c')" using oc' ac a by auto
  have xc': "x \<notin> set (objs c')" using oc' xc extra_at_bound [OF ext] by auto
  have od': "set (objs c') \<inter> set (concat (map objs (map snd d))) = {}"
    using oc' od bound by fastforce
  have orest': "set (objs c') \<inter> set (concat (map objs (map snd rest))) = {}"
    using oc' orest bound by fastforce
  have old: "holds ?s2 k" if qk: "(q, k) \<in> set d \<union> set rest" for q k
  proof -
    from qk have m: "(q, k) \<in> set ?fs" by auto
    have sub: "set (objs k) \<subseteq> set (concat (map objs (map snd d))) \<union> set (concat (map objs (map snd rest)))"
      using qk objs_child [of q k d] objs_child [of q k rest] by blast
    with od orest have "set (objs k) \<inter> set (objs c) = {}" by blast
    with kids [OF m] f1 have hk: "holds s1 k" by (rule holds_frame)
    from sub ad ar have "set (objs k) \<inter> {a} = {}" by auto
    with hk f12 show ?thesis by (rule holds_frame)
  qed
  have new: "holds ?s2 c'"
  proof -
    from ac' have "set (objs c') \<inter> {a} = {}" by simp
    with hc' f12 show ?thesis by (rule holds_frame)
  qed
  have h2: "holds ?s2 (SObj a ((d @ [(p, c')]) @ rest))"
  proof (rule holds_SObjI)
    show "a < next_addr ?s2" using a n1 n2 by simp
    show "distinct (map fst ((d @ [(p, c')]) @ rest))" using names by simp
    show "cells ?s2 a = Some (Object (rootf ((d @ [(p, c')]) @ rest)))" using cell2 by simp
    fix q k assume "(q, k) \<in> set ((d @ [(p, c')]) @ rest)"
    then consider "(q, k) \<in> set d \<union> set rest" | "k = c'" by auto
    then show "holds ?s2 k" using old new by cases auto
  qed
  have d2: "distinct (objs (SObj a ((d @ [(p, c')]) @ rest)))"
    using dd dr ddr ad ar ac' dc' od' orest' by auto
  have ext2: "extra_at ?s2 x exs"
  proof -
    have "extra_at s1 x exs" using ext f1 xc by (rule extra_at_frame)
    then show ?thesis using f12 by (rule extra_at_frame) (simp add: xa)
  qed
  have xo2: "x \<notin> set (objs (SObj a ((d @ [(p, c')]) @ rest)))"
    using xa xd xr xc' by auto
  from Cons.IH [OF h2 d2 ext2 xo2 depth_rest] obtain rest' s' where
    loop: "for_in (process n x) a (map fst rest) ?s2 = Inr s'"
    and h': "holds s' (SObj a ((d @ [(p, c')]) @ rest'))"
    and d': "distinct (objs (SObj a ((d @ [(p, c')]) @ rest')))"
    and e': "erasef rest' = map (\<lambda>(p, c). (p, injected x (erasef exs) (erase c))) rest"
    and f': "frame ?s2 (set (objs (SObj a rest))) s'"
    and o': "set (objs (SObj a rest')) \<subseteq> set (objs (SObj a rest)) \<union> {b. next_addr ?s2 \<le> b}"
    by blast
  have step: "for_in (process n x) a (map fst (e # rest)) s = Inr s'"
    using field_read [OF h] run loop by (simp add: e)
  have fr: "frame s (set (objs (SObj a ((p, c) # rest)))) s'"
  proof -
    have "frame s (set (objs c) \<union> {a}) ?s2" using f1 f12 by (rule frame_trans)
    then have "frame s ((set (objs c) \<union> {a}) \<union> set (objs (SObj a rest))) s'"
      using f' by (rule frame_trans)
    then show ?thesis by (rule frame_mono) auto
  qed
  have sub: "set (objs (SObj a ((p, c') # rest'))) \<subseteq> set (objs (SObj a ((p, c) # rest))) \<union> {b. next_addr s \<le> b}"
    using o' oc' n1 n2 by auto
  show ?case
    using step h' d' e' ec' fr sub
    by (intro exI [of _ "(p, c') # rest'"] exI [of _ s']) (simp add: e)
qed

lemma array_map_elems:
  assumes ih: "sound n x exs"
  shows "(\<forall>t \<in> set (d @ todo). holds s t) \<Longrightarrow> distinct (concat (map objs (d @ todo))) \<Longrightarrow>
     extra_at s x exs \<Longrightarrow> x \<notin> set (concat (map objs (d @ todo))) \<Longrightarrow>
     (\<forall>t \<in> set todo. depth (injected x (erasef exs) (erase t)) < n) \<Longrightarrow>
     \<exists>todo' s'. array_map (process n x) (map root todo) s = Inr (map root todo', s') \<and>
        (\<forall>t \<in> set (d @ todo'). holds s' t) \<and> distinct (concat (map objs (d @ todo'))) \<and>
        map erase todo' = map (\<lambda>t. injected x (erasef exs) (erase t)) todo \<and>
        frame s (set (concat (map objs todo))) s' \<and>
        set (concat (map objs todo')) \<subseteq> set (concat (map objs todo)) \<union> {b. next_addr s \<le> b}"
proof (induction todo arbitrary: d s)
  case Nil
  then show ?case
    by (intro exI [of _ "[]"] exI [of _ s]) (simp add: frame_refl)
next
  case (Cons c rest)
  note kids = Cons.prems(1)
  note dist = Cons.prems(2)
  note ext = Cons.prems(3)
  note xo = Cons.prems(4)
  from kids have hc: "holds s c" by simp
  from dist have dc: "distinct (objs c)"
    and od: "set (objs c) \<inter> set (concat (map objs d)) = {}"
    and orest: "set (objs c) \<inter> set (concat (map objs rest)) = {}"
    and dd: "distinct (concat (map objs d))"
    and dr: "distinct (concat (map objs rest))"
    and ddr: "set (concat (map objs d)) \<inter> set (concat (map objs rest)) = {}"
    by auto
  from xo have xc: "x \<notin> set (objs c)"
    and xd: "x \<notin> set (concat (map objs d))"
    and xr: "x \<notin> set (concat (map objs rest))" by auto
  from Cons.prems(5) have depth_c: "depth (injected x (erasef exs) (erase c)) < n"
    and depth_rest: "\<forall>t \<in> set rest. depth (injected x (erasef exs) (erase t)) < n"
    by auto
  from ih hc dc ext xc depth_c obtain c' s1 where
    run: "process n x (root c) s = Inr (root c', s1)" and hc': "holds s1 c'" and dc': "distinct (objs c')"
    and ec': "erase c' = injected x (erasef exs) (erase c)" and f1: "frame s (set (objs c)) s1"
    and oc': "set (objs c') \<subseteq> set (objs c) \<union> {b. next_addr s \<le> b}"
    by (rule sound_step)
  have n1: "next_addr s \<le> next_addr s1" using f1 by (simp add: frame_def)
  have bound: "b < next_addr s" if "b \<in> set (concat (map objs d)) \<union> set (concat (map objs rest))" for b
  proof -
    from that obtain k where k: "k \<in> set d \<union> set rest" "b \<in> set (objs k)" by auto
    with kids have "holds s k" by auto
    then show ?thesis using k(2) by (rule objs_bound)
  qed
  have xc': "x \<notin> set (objs c')" using oc' xc extra_at_bound [OF ext] by auto
  have od': "set (objs c') \<inter> set (concat (map objs d)) = {}"
    using oc' od bound by fastforce
  have orest': "set (objs c') \<inter> set (concat (map objs rest)) = {}"
    using oc' orest bound by fastforce
  have old: "holds s1 k" if k: "k \<in> set d \<union> set rest" for k
  proof -
    from k kids have hk: "holds s k" by auto
    have "set (objs k) \<subseteq> set (concat (map objs d)) \<union> set (concat (map objs rest))"
      using k by auto
    with od orest have "set (objs k) \<inter> set (objs c) = {}" by blast
    with hk f1 show ?thesis by (rule holds_frame)
  qed
  have h2: "\<forall>t \<in> set ((d @ [c']) @ rest). holds s1 t"
    using old hc' by auto
  have d2: "distinct (concat (map objs ((d @ [c']) @ rest)))"
    using dd dr ddr dc' od' orest' by auto
  have ext2: "extra_at s1 x exs" using ext f1 xc by (rule extra_at_frame)
  have xo2: "x \<notin> set (concat (map objs ((d @ [c']) @ rest)))"
    using xd xr xc' by auto
  from Cons.IH [OF h2 d2 ext2 xo2 depth_rest] obtain rest' s' where
    loop: "array_map (process n x) (map root rest) s1 = Inr (map root rest', s')"
    and h': "\<forall>t \<in> set ((d @ [c']) @ rest'). holds s' t"
    and d': "distinct (concat (map objs ((d @ [c']) @ rest')))"
    and e': "map erase rest' = map (\<lambda>t. injected x (erasef exs) (erase t)) rest"
    and f': "frame s1 (set (concat (map objs rest))) s'"
    and o': "set (concat (map objs rest')) \<subseteq> set (concat (map objs rest)) \<union> {b. next_addr s1 \<le> b}"
    by blast
  have step: "array_map (process n x) (map root (c # rest)) s = Inr (map root (c' # rest'), s')"
    using run loop by simp
  have fr: "frame s (set (concat (map objs (c # rest)))) s'"
  proof -
    have "frame s (set (objs c) \<union> set (concat (map objs rest))) s'"
      using f1 f' by (rule frame_trans)
    then show ?thesis by (rule frame_mono) auto
  qed
  have sub: "set (concat (map objs (c' # rest'))) \<subseteq> set (concat (map objs (c # rest))) \<union> {b. next_addr s \<le> b}"
    using o' oc' n1 by auto
  show ?case
    using step h' d' e' ec' fr sub
    by (intro exI [of _ "c' # rest'"] exI [of _ s']) simp
qed

lemma process_object:
  "cells s a = Some (Object ps) \<Longrightarrow>
   process (Suc n) x (Ref a) s = (case for_in (process n x) a (map fst ps) (inject_op x a s) of
       Inl e \<Rightarrow> Inl e
     | Inr s2 \<Rightarrow> Inr (Ref a, s2))"
  by (simp add: process.simps(2) inject_op_def split: option.split val.split)

lemma process_array:
  "cells s a = Some (Array xs) \<Longrightarrow>
   process (Suc n) x (Ref a) s = (case array_map (process n x) xs s of
       Inl e \<Rightarrow> Inl e
     | Inr (ys, s1) \<Rightarrow> (case alloc (Array ys) s1 of (r, s2) \<Rightarrow> Inr (Ref r, s2)))"
  by (simp add: process.simps(2))

lemma rootf_names: "map fst (rootf fs) = map fst fs"
  by (induction fs) auto

lemma map_of_rootf: "map_of (rootf fs) p = map_option root (map_of fs p)"
  by (induction fs) auto

lemma fields_of_props:
  assumes "holds s c" "root c = Ref k"
  shows "own_props s (Ref k) = rootf (fields_of c)"
    and "\<And>p t. (p, t) \<in> set (fields_of c) \<Longrightarrow> holds s t"
    and "set (concat (map objs (map snd (fields_of c)))) \<subseteq> set (objs c)"
    and "distinct (objs c) \<Longrightarrow> distinct (concat (map objs (map snd (fields_of c))))"
proof -
  show "own_props s (Ref k) = rootf (fields_of c)"
    using assms by (cases c) (simp_all add: own_props_def indexed_numbered numbered_map)
  show "holds s t" if "(p, t) \<in> set (fields_of c)" for p t
  proof (cases c)
    case (SArr j ts)
    with that have "t \<in> set ts" by (auto simp: numbered_def dest: set_zip_rightD)
    with assms(1) SArr show ?thesis by simp
  next
    case (SObj j kfs)
    with that assms(1) show ?thesis by auto
  qed (use that in simp_all)
  show "set (concat (map objs (map snd (fields_of c)))) \<subseteq> set (objs c)"
    by (cases c) (auto simp: numbered_values)
  show "distinct (concat (map objs (map snd (fields_of c))))" if "distinct (objs c)"
    using that by (cases c) (simp_all add: numbered_values)
qed

lemma rewritten_fields:
  "root c = Ref k \<Longrightarrow> rewritten m x exs c = SObj m (spread (fields_of c) exs)"
  by (cases c) simp_all

lemma replace_child:
  assumes h: "holds s (SObj a (d @ (p, c) # r))"
    and dist: "distinct (objs (SObj a (d @ (p, c) # r)))"
    and fr: "frame s {a} s1"
    and cell: "cells s1 a = Some (Object (rootf (d @ (p, c1) # r)))"
    and hc1: "holds s1 c1" and dc1: "distinct (objs c1)"
    and oc1: "set (objs c1) \<subseteq> set (objs c) \<union> {b. next_addr s \<le> b}"
  shows "holds s1 (SObj a (d @ (p, c1) # r))"
    and "distinct (objs (SObj a (d @ (p, c1) # r)))"
    and "set (objs (SObj a (d @ (p, c1) # r))) \<subseteq> set (objs (SObj a (d @ (p, c) # r))) \<union> {b. next_addr s \<le> b}"
proof -
  let ?fs = "d @ (p, c) # r"
  from h have a: "a < next_addr s" and names: "distinct (map fst ?fs)"
    and kids: "\<And>q k. (q, k) \<in> set ?fs \<Longrightarrow> holds s k"
    by (rule holds_SObjD)+
  from dist have ac: "a \<notin> set (objs c)"
    and od: "set (objs c) \<inter> set (concat (map objs (map snd d))) = {}"
    and orest: "set (objs c) \<inter> set (concat (map objs (map snd r))) = {}"
    and dd: "distinct (concat (map objs (map snd d)))"
    and dr: "distinct (concat (map objs (map snd r)))"
    and ddr: "set (concat (map objs (map snd d))) \<inter> set (concat (map objs (map snd r))) = {}"
    and ad: "a \<notin> set (concat (map objs (map snd d)))"
    and ar: "a \<notin> set (concat (map objs (map snd r)))"
    by auto
  have bound: "b < next_addr s" if "b \<in> set (concat (map objs (map snd d))) \<union> set (concat (map objs (map snd r)))" for b
  proof -
    from that obtain e where e: "e \<in> set d \<union> set r" "b \<in> set (objs (snd e))" by auto
    obtain q k where qk: "e = (q, k)" by (cases e)
    with e have "(q, k) \<in> set ?fs" "b \<in> set (objs k)" by auto
    from kids [OF this(1)] this(2) show ?thesis by (rule objs_bound)
  qed
  have ac1: "a \<notin> set (objs c1)" using oc1 ac a by auto
  have od1: "set (objs c1) \<inter> set (concat (map objs (map snd d))) = {}"
    using oc1 od bound by fastforce
  have or1: "set (objs c1) \<inter> set (concat (map objs (map snd r))) = {}"
    using oc1 orest bound by fastforce
  have old: "holds s1 k" if qk: "(q, k) \<in> set d \<union> set r" for q k
  proof -
    from qk have m: "(q, k) \<in> set ?fs" by auto
    have "set (objs k) \<subseteq> set (concat (map objs (map snd d))) \<union> set (concat (map objs (map snd r)))"
      using qk objs_child [of q k d] objs_child [of q k r] by blast
    with ad ar have "set (objs k) \<inter> {a} = {}" by auto
    with kids [OF m] fr show ?thesis by (rule holds_frame)
  qed
  show "holds s1 (SObj a (d @ (p, c1) # r))"
  proof (rule holds_SObjI)
    show "a < next_addr s1" using fr a by (rule frame_next)
    show "distinct (map fst (d @ (p, c1) # r))" using names by simp
    show "cells s1 a = Some (Object (rootf (d @ (p, c1) # r)))" by (rule cell)
    fix q k assume "(q, k) \<in> set (d @ (p, c1) # r)"
    then consider "(q, k) \<in> set d \<union> set r" | "k = c1" by auto
    then show "holds s1 k" using old hc1 by cases auto
  qed
  show "distinct (objs (SObj a (d @ (p, c1) # r)))"
    using dd dr ddr ad ar ac1 dc1 od1 or1 by auto
  show "set (objs (SObj a (d @ (p, c1) # r))) \<subseteq> set (objs (SObj a (d @ (p, c) # r))) \<union> {b. next_addr s \<le> b}"
    using oc1 by auto
qed

lemma erasef_rewrite:
  assumes "q \<notin> fst ` set d" "q \<notin> fst ` set r"
  shows "map (\<lambda>(p, t). (p, if p = q then f t else t)) (erasef (d @ (q, c) # r))
           = erasef d @ (q, f (erase c)) # erasef r"
proof -
  have "map (\<lambda>(p, t). (p, if p = q then f t else t)) (erasef l) = erasef l" if "q \<notin> fst ` set l" for l
    using that by (induction l) auto
  with assms show ?thesis by simp
qed

lemma rewrite_step:
  assumes h: "holds s (SObj a fs)" and dist: "distinct (objs (SObj a fs))"
    and ext: "extra_at s x exs" and xo: "x \<notin> set (objs (SObj a fs))"
  shows "\<exists>fs1. holds (inject_op x a s) (SObj a fs1) \<and> distinct (objs (SObj a fs1)) \<and>
      erasef fs1 = map (\<lambda>(p, t). (p, if p = ''queryKey'' then merged x (erasef exs) t else t)) (erasef fs) \<and>
      frame s {a} (inject_op x a s) \<and>
      set (objs (SObj a fs1)) \<subseteq> set (objs (SObj a fs)) \<union> {b. next_addr s \<le> b} \<and>
      map fst fs1 = map fst fs"
proof (cases "map_of fs ''queryKey''")
  case None
  from h have cell: "cells s a = Some (Object (rootf fs))" by simp
  from None have "map_of (rootf fs) ''queryKey'' = None" by (simp add: map_of_rootf)
  with cell have same: "inject_op x a s = s" by (simp add: inject_op_def)
  from None have "''queryKey'' \<notin> fst ` set fs" by (simp add: map_of_eq_None_iff)
  then have "map (\<lambda>(p, t). (p, if p = ''queryKey'' then merged x (erasef exs) t else t)) (erasef fs) = erasef fs"
    by (induction fs) auto
  with h dist same show ?thesis
    by (intro exI [of _ fs]) (auto simp: frame_refl)
next
  case (Some c)
  then obtain d r where fs: "fs = d @ (''queryKey'', c) # r" and nd: "''queryKey'' \<notin> fst ` set d"
    by (rule split_field)
  from h have a: "a < next_addr s" and names: "distinct (map fst fs)"
    and cell: "cells s a = Some (Object (rootf fs))"
    and kids: "\<And>q k. (q, k) \<in> set fs \<Longrightarrow> holds s k"
    by (rule holds_SObjD)+
  from names fs have nr: "''queryKey'' \<notin> fst ` set r" by auto
  have hc: "holds s c" by (rule kids [of "''queryKey''"]) (simp add: fs)
  from dist have dc: "distinct (objs c)" and ac: "a \<notin> set (objs c)" by (auto simp: fs)
  from Some have key: "map_of (rootf fs) ''queryKey'' = Some (root c)" by (simp add: map_of_rootf)
  let ?m = "next_addr s"
  let ?c1 = "rewritten ?m x exs c"
  let ?s1 = "inject_op x a s"
  let ?fs1 = "d @ (''queryKey'', ?c1) # r"
  have er: "erasef ?fs1 = map (\<lambda>(p, t). (p, if p = ''queryKey'' then merged x (erasef exs) t else t)) (erasef fs)"
    unfolding fs erasef_rewrite [OF nd nr] by (simp add: erase_rewritten)
  have alloc_case: "frame s {a} ?s1 \<and> cells ?s1 a = Some (Object (rootf ?fs1)) \<and> holds ?s1 ?c1 \<and>
      distinct (objs ?c1) \<and> set (objs ?c1) \<subseteq> set (objs c) \<union> {b. next_addr s \<le> b}"
    if rk: "root c = Ref k" for k
  proof -
    note fp = fields_of_props [OF hc rk]
    let ?kf = "fields_of c"
    let ?M = "Object (rootf (spread ?kf exs))"
    let ?sa = "snd (alloc ?M s)"
    from ext have hx: "holds s (SObj x exs)"
      and px: "\<forall>(p, c) \<in> set exs. plain c \<and> (p = ''queryKey'' \<longrightarrow> leaf_shape c)"
      by (simp_all add: extra_at_def)
    from hx have xprops: "own_props s (Ref x) = rootf exs" by (simp add: own_props_def)
    have s1: "?s1 = set_prop a ''queryKey'' (Ref ?m) ?sa"
      using cell key rk fp(1) xprops by (simp add: inject_op_def alloc_def map_spread)
    have c1: "?c1 = SObj ?m (spread ?kf exs)" using rk by (rule rewritten_fields)
    have fr: "frame s {a} ?s1"
      unfolding s1
      using frame_trans [OF frame_alloc [of s ?M] frame_set_prop [of ?sa a "''queryKey''" "Ref ?m"]]
      by simp
    have cella: "cells ?sa a = Some (Object (rootf fs))" using cell a by (simp add: alloc_def)
    have "cells (set_prop a ''queryKey'' (root ?c1) ?sa) a = Some (Object (rootf ?fs1))"
      using cella names unfolding fs by (rule field_write)
    then have cell1: "cells ?s1 a = Some (Object (rootf ?fs1))" by (simp add: s1 c1)
    have cellm: "cells ?s1 ?m = Some ?M"
      using a cella by (simp add: s1 set_prop_def alloc_def)
    have next1: "next_addr ?s1 = Suc ?m" by (simp add: s1 set_prop_next alloc_def)
    have plainx: "\<forall>(p, c) \<in> set exs. objs c = []" using px by (auto simp: plain_objs)
    have sub_c: "set (field_objs ?kf) \<subseteq> set (objs c)" using fp(3) by (simp add: field_objs_def)
    have dkf: "distinct (field_objs ?kf)" using fp(4) [OF dc] by (simp add: field_objs_def)
    note sp = objs_spread [OF plainx dkf]
    have kidsM: "holds ?s1 t" if qt: "(q, t) \<in> set (spread ?kf exs)" for q t
    proof -
      from qt set_spread [of ?kf exs] consider "(q, t) \<in> set ?kf" | "(q, t) \<in> set exs" by blast
      then show ?thesis
      proof cases
        case 1
        then have "set (objs t) \<subseteq> set (field_objs ?kf)" by (force simp: field_objs_def)
        with sub_c ac have "set (objs t) \<inter> {a} = {}" by auto
        with fp(2) [OF 1] fr show ?thesis by (rule holds_frame)
      next
        case 2
        with hx have ht: "holds s t" by auto
        from 2 plainx have "set (objs t) \<inter> {a} = {}" by auto
        with ht fr show ?thesis by (rule holds_frame)
      qed
    qed
    have hc1: "holds ?s1 ?c1"
      unfolding c1
    proof (rule holds_SObjI)
      show "?m < next_addr ?s1" by (simp add: next1)
      show "distinct (map fst (spread ?kf exs))" by (rule distinct_spread)
      show "cells ?s1 ?m = Some (Object (rootf (spread ?kf exs)))" by (rule cellm)
      show "holds ?s1 t" if "(q, t) \<in> set (spread ?kf exs)" for q t
        using that by (rule kidsM)
    qed
    have below: "b < ?m" if "b \<in> set (objs c)" for b
      using hc that by (rule objs_bound)
    have oc1_eq: "objs ?c1 = ?m # field_objs (spread ?kf exs)"
      by (simp add: c1 field_objs_def)
    have "?m \<notin> set (field_objs (spread ?kf exs))"
      using sp sub_c below by fastforce
    with sp have dc1: "distinct (objs ?c1)" by (simp add: oc1_eq)
    have oc1: "set (objs ?c1) \<subseteq> set (objs c) \<union> {b. next_addr s \<le> b}"
      using sp sub_c by (auto simp: oc1_eq)
    from fr cell1 hc1 dc1 oc1 show ?thesis by blast
  qed
  have main: "frame s {a} ?s1 \<and> cells ?s1 a = Some (Object (rootf ?fs1)) \<and> holds ?s1 ?c1 \<and>
      distinct (objs ?c1) \<and> set (objs ?c1) \<subseteq> set (objs c) \<union> {b. next_addr s \<le> b}"
  proof (cases c)
    case (SPrim p)
    with cell key have "?s1 = s" by (simp add: inject_op_def)
    with SPrim cell show ?thesis by (simp add: frame_refl fs)
  next
    case (SFn f)
    with cell key have s1: "?s1 = set_prop a ''queryKey'' (Fn (Wrapper f x)) s"
      by (simp add: inject_op_def)
    have "cells (set_prop a ''queryKey'' (root (SFn (Wrapper f x))) s) a =
        Some (Object (rootf (d @ (''queryKey'', SFn (Wrapper f x)) # r)))"
      using cell names unfolding fs by (rule field_write)
    with SFn s1 show ?thesis by (simp add: frame_set_prop)
  next
    case (SArr k ts)
    then have "root c = Ref k" by simp
    then show ?thesis by (rule alloc_case)
  next
    case (SObj k kfs)
    then have "root c = Ref k" by simp
    then show ?thesis by (rule alloc_case)
  qed
  from main have fr: "frame s {a} ?s1" and cell1: "cells ?s1 a = Some (Object (rootf ?fs1))"
    and hc1: "holds ?s1 ?c1" and dc1: "distinct (objs ?c1)"
    and oc1: "set (objs ?c1) \<subseteq> set (objs c) \<union> {b. next_addr s \<le> b}" by simp_all
  note rc = replace_child [OF h [unfolded fs] dist [unfolded fs] fr cell1 hc1 dc1 oc1]
  show ?thesis
    using rc er fr by (intro exI [of _ ?fs1]) (simp add: fs)
qed

lemma frame_restrict:
  "frame s F s' \<Longrightarrow> (\<And>c. c \<in> F \<Longrightarrow> c < next_addr s \<Longrightarrow> c \<in> G) \<Longrightarrow> frame s G s'"
  unfolding frame_def by blast

lemma injected_fields:
  assumes "extra_tree ex"
    and "erasef fs1 = map (\<lambda>(p, t). (p, if p = ''queryKey'' then merged x ex t else t)) (erasef fs)"
  shows "map (\<lambda>(p, c). (p, injected x ex (erase c))) fs1 =
         map (\<lambda>(p, t). (p, if p = ''queryKey'' then injected_key x ex t else injected x ex t)) (erasef fs)"
proof -
  have "map (\<lambda>(p, c). (p, injected x ex (erase c))) fs1 = map (\<lambda>(p, t). (p, injected x ex t)) (erasef fs1)"
    by (simp add: case_prod_unfold)
  also have "\<dots> = map (\<lambda>(p, t). (p, injected x ex (if p = ''queryKey'' then merged x ex t else t))) (erasef fs)"
    unfolding assms(2) by (simp add: case_prod_unfold)
  also have "\<dots> = map (\<lambda>(p, t). (p, if p = ''queryKey'' then injected_key x ex t else injected x ex t)) (erasef fs)"
    by (rule map_cong [OF refl]) (auto simp: injected_merged [OF assms(1)])
  finally show ?thesis .
qed

lemma sound_all: "sound n x exs"
proof (induction n)
  case 0
  show ?case by (simp add: sound_def)
next
  case (Suc n)
  let ?ex = "erasef exs"
  show ?case
    unfolding sound_def
  proof (intro allI impI)
    fix g s
    assume h: "holds s g" and dist: "distinct (objs g)" and ext: "extra_at s x exs"
      and xo: "x \<notin> set (objs g)" and dep: "depth (injected x ?ex (erase g)) < Suc n"
    show "\<exists>g' s'. process (Suc n) x (root g) s = Inr (root g', s') \<and> outcome x ?ex s g s' g'"
    proof (cases g)
      case (SPrim p)
      then show ?thesis
        by (intro exI [of _ g] exI [of _ s]) (simp add: process_Prim outcome_def frame_refl)
    next
      case (SFn f)
      then show ?thesis
        by (intro exI [of _ g] exI [of _ s]) (simp add: process_Fn outcome_def frame_refl)
    next
      case (SArr a ts)
      from h SArr have a: "a < next_addr s" and cell: "cells s a = Some (Array (map root ts))"
        and kids: "\<forall>t \<in> set ([] @ ts). holds s t" by simp_all
      from dist SArr have d0: "distinct (concat (map objs ([] @ ts)))" by simp
      from xo SArr have x0: "x \<notin> set (concat (map objs ([] @ ts)))" by simp
      have deps: "\<forall>t \<in> set ts. depth (injected x ?ex (erase t)) < n"
      proof
        fix t assume t: "t \<in> set ts"
        then have "injected x ?ex (erase t) \<in> set (map (injected x ?ex) (map erase ts))" by simp
        moreover from dep SArr have "depth (DArr (map (injected x ?ex) (map erase ts))) < Suc n" by simp
        ultimately show "depth (injected x ?ex (erase t)) < n" by (rule depth_elem)
      qed
      from array_map_elems [OF Suc.IH kids d0 ext x0 deps] obtain ts' s1 where
        loop: "array_map (process n x) (map root ts) s = Inr (map root ts', s1)"
        and h1: "\<forall>t \<in> set ts'. holds s1 t" and d1: "distinct (concat (map objs ts'))"
        and e1: "map erase ts' = map (\<lambda>t. injected x ?ex (erase t)) ts"
        and f1: "frame s (set (concat (map objs ts))) s1"
        and o1: "set (concat (map objs ts')) \<subseteq> set (concat (map objs ts)) \<union> {b. next_addr s \<le> b}"
        by auto
      let ?r = "next_addr s1"
      let ?s2 = "snd (alloc (Array (map root ts')) s1)"
      have run: "process (Suc n) x (root g) s = Inr (root (SArr ?r ts'), ?s2)"
        using cell loop by (simp add: SArr process_array alloc_def)
      have f2: "frame s1 {} ?s2" by (rule frame_alloc)
      have h2: "holds ?s2 (SArr ?r ts')"
      proof -
        have "holds ?s2 t" if "t \<in> set ts'" for t
        proof -
          from that h1 have "holds s1 t" by simp
          then show ?thesis using f2 by (rule holds_frame) simp
        qed
        then show ?thesis by (simp add: alloc_def)
      qed
      have fr: "frame s (set (objs g)) ?s2"
        using frame_trans [OF f1 f2] by (simp add: SArr)
      show ?thesis
        using run h2 d1 e1 fr o1
        by (intro exI [of _ "SArr ?r ts'"] exI [of _ ?s2]) (simp add: outcome_def SArr)
    next
      case (SObj a fs)
      from h SObj have ha: "holds s (SObj a fs)" by simp
      from dist SObj have da: "distinct (objs (SObj a fs))" by simp
      from xo SObj have xa: "x \<notin> set (objs (SObj a fs))" by simp
      from ha have a: "a < next_addr s" and cell: "cells s a = Some (Object (rootf fs))" by simp_all
      let ?s1 = "inject_op x a s"
      from rewrite_step [OF ha da ext xa] obtain fs1 where
        h1: "holds ?s1 (SObj a fs1)" and d1: "distinct (objs (SObj a fs1))"
        and e1: "erasef fs1 = map (\<lambda>(p, t). (p, if p = ''queryKey'' then merged x ?ex t else t)) (erasef fs)"
        and f1: "frame s {a} ?s1"
        and o1: "set (objs (SObj a fs1)) \<subseteq> set (objs (SObj a fs)) \<union> {b. next_addr s \<le> b}"
        and n1: "map fst fs1 = map fst fs"
        by blast
      note inj = injected_fields [OF extra_tree_erase [OF ext] e1]
      have ext1: "extra_at ?s1 x exs"
        using ext f1 by (rule extra_at_frame) (use xa in simp)
      have x1: "x \<notin> set (objs (SObj a fs1))"
        using o1 xa extra_at_bound [OF ext] by auto
      have deps: "\<forall>(p, c) \<in> set fs1. depth (injected x ?ex (erase c)) < n"
      proof (clarify)
        fix p c assume pc: "(p, c) \<in> set fs1"
        then have "(p, injected x ?ex (erase c)) \<in> set (map (\<lambda>(p, c). (p, injected x ?ex (erase c))) fs1)"
          by force
        then have "(p, injected x ?ex (erase c)) \<in>
            set (map (\<lambda>(p, t). (p, if p = ''queryKey'' then injected_key x ?ex t else injected x ?ex t)) (erasef fs))"
          by (simp only: inj)
        moreover from dep SObj have "depth (DObj (map (\<lambda>(p, t). (p, if p = ''queryKey''
            then injected_key x ?ex t else injected x ?ex t)) (erasef fs))) < Suc n" by simp
        ultimately show "depth (injected x ?ex (erase c)) < n" by (rule depth_field)
      qed
      from for_in_fields [OF Suc.IH, of ?s1 a "[]" fs1] h1 d1 ext1 x1 deps obtain fs' s' where
        loop: "for_in (process n x) a (map fst fs1) ?s1 = Inr s'"
        and h': "holds s' (SObj a fs')" and d': "distinct (objs (SObj a fs'))"
        and e': "erasef fs' = map (\<lambda>(p, c). (p, injected x ?ex (erase c))) fs1"
        and f': "frame ?s1 (set (objs (SObj a fs1))) s'"
        and o': "set (objs (SObj a fs')) \<subseteq> set (objs (SObj a fs1)) \<union> {b. next_addr ?s1 \<le> b}"
        by auto
      have "process (Suc n) x (Ref a) s = (case for_in (process n x) a (map fst (rootf fs)) ?s1 of
          Inl e \<Rightarrow> Inl e | Inr s2 \<Rightarrow> Inr (Ref a, s2))"
        using cell by (rule process_object)
      then have run: "process (Suc n) x (root g) s = Inr (root (SObj a fs'), s')"
        using loop by (simp only: rootf_names n1 [symmetric] SObj root.simps sum.case)
      have er: "erase (SObj a fs') = injected x ?ex (erase g)"
        by (simp add: SObj e' inj)
      have nx: "next_addr s \<le> next_addr ?s1" using f1 by (simp add: frame_def)
      have fr: "frame s (set (objs g)) s'"
      proof (rule frame_restrict)
        show "frame s ({a} \<union> set (objs (SObj a fs1))) s'" using f1 f' by (rule frame_trans)
        fix c assume c: "c \<in> {a} \<union> set (objs (SObj a fs1))" "c < next_addr s"
        have "a \<in> set (objs (SObj a fs))" by simp
        with c o1 have "c \<in> set (objs (SObj a fs)) \<or> next_addr s \<le> c" by blast
        with c(2) show "c \<in> set (objs g)" unfolding SObj by auto
      qed
      have sub: "set (objs (SObj a fs')) \<subseteq> set (objs g) \<union> {b. next_addr s \<le> b}"
      proof
        fix b assume "b \<in> set (objs (SObj a fs'))"
        with o' have "b \<in> set (objs (SObj a fs1)) \<or> next_addr ?s1 \<le> b" by blast
        then show "b \<in> set (objs g) \<union> {b. next_addr s \<le> b}"
        proof
          assume "b \<in> set (objs (SObj a fs1))"
          with o1 show ?thesis unfolding SObj by blast
        next
          assume "next_addr ?s1 \<le> b"
          with nx have "next_addr s \<le> b" by (rule order_trans)
          then show ?thesis by simp
        qed
      qed
      show ?thesis
        using run h' d' er fr sub
        by (intro exI [of _ "SObj a fs'"] exI [of _ s']) (simp add: outcome_def SObj)
    qed
  qed
qed

lemma injected_quiet: "quiet t \<Longrightarrow> injected x ex t = t"
proof (induction t)
  case (DArr ts)
  then have "map (injected x ex) ts = ts" by (intro map_idI) auto
  then show ?case by simp
next
  case (DObj fs)
  have "map (\<lambda>(p, t). (p, if p = ''queryKey'' then injected_key x ex t else injected x ex t)) fs = fs"
  proof (rule map_idI)
    fix e assume e: "e \<in> set fs"
    obtain p t where pt: "e = (p, t)" by (cases e)
    with e DObj.prems have "p \<noteq> ''queryKey''" "quiet t" by auto
    moreover from this(2) e pt have "injected x ex t = t" by (intro DObj.IH [of e t]) auto
    ultimately show "(case e of (p, t) \<Rightarrow> (p, if p = ''queryKey'' then injected_key x ex t else injected x ex t)) = e"
      by (simp add: pt)
  qed
  then show ?case by simp
qed simp_all

lemma stamped_static: "map_of ex ''queryKey'' = None \<Longrightarrow> stamped x ex = ex"
  unfolding stamped_def
proof (rule map_idI)
  fix e assume n: "map_of ex ''queryKey'' = None" and e: "e \<in> set ex"
  obtain p t where pt: "e = (p, t)" by (cases e)
  from n have "''queryKey'' \<notin> fst ` set ex" by (simp add: map_of_eq_None_iff)
  with e pt have "p \<noteq> ''queryKey''" by force
  then show "(case e of (p, t) \<Rightarrow> (p, if p = ''queryKey''
      then (case t of DFn f \<Rightarrow> DFn (Wrapper f x) | _ \<Rightarrow> t) else t)) = e"
    by (simp add: pt)
qed

lemma injected_key_flat:
  assumes "quiet (DObj fs)" "map_of ex ''queryKey'' = None"
  shows "injected_key x ex (DObj fs) = DObj (spread fs ex)"
proof -
  from assms(1) have "injected x ex (DObj fs) = DObj fs" by (rule injected_quiet)
  then have "map (\<lambda>(p, t). (p, if p = ''queryKey'' then injected_key x ex t else injected x ex t)) fs = fs"
    by simp
  with assms(2) show ?thesis by (simp add: stamped_static)
qed

lemma index_name_0: "index_name 0 = ''0''"
  by code_simp

text \<open>
  Claim C3, as amended. Take any structure the store holds in which no object is reached
  along two paths: groups within groups, operations, arrays and keys, nested to any
  depth. Take any extra mapping outside it whose property values are primitives,
  functions or arrays of these, and whose own \<^verbatim>\<open>queryKey\<close> property, if it has
  one, holds a primitive or a function. With fuel for the depth of the result, the
  injector returns without an error, returns the object it was given, and leaves the
  structure \<^const>\<open>injected\<close> describes: at every depth, a key stored under a
  \<^verbatim>\<open>queryKey\<close> property is replaced by that key with the extra fields merged on
  top (lemma \<open>injected_key_flat\<close>: with no \<^verbatim>\<open>queryKey\<close> property inside the key
  or in the extra mapping, the key \<open>fs\<close> becomes \<open>spread fs ex\<close>), and a function
  stored under \<^verbatim>\<open>queryKey\<close> by a wrapper that, whenever the function returns a
  plain object, returns it with the extra fields merged on top.
  Nothing else is merged or wrapped: a property that is not named \<^verbatim>\<open>queryKey\<close>
  keeps its name and place and holds its former value walked in the same way, so that a
  value with no \<^verbatim>\<open>queryKey\<close> property inside, a key or a function stored under
  \<^verbatim>\<open>invalidates\<close> for one, has the structure it had (lemma \<open>injected_quiet\<close>).
  The extra mapping, the cache and every cell that is not an object of the structure
  are left as they were.
\<close>

theorem inject_structure:
  assumes g: "holds s g" "distinct (objs g)"
    and x: "extra_at s x exs" "x \<notin> set (objs g)"
    and n: "depth (injected x (erasef exs) (erase g)) < n"
  shows "\<exists>g'. case inyectKeysToQueries n (root g) x s of
           Inl e \<Rightarrow> False
         | Inr (v, s') \<Rightarrow> v = root g' \<and> holds s' g' \<and> distinct (objs g') \<and>
             erase g' = injected x (erasef exs) (erase g) \<and>
             (\<forall>a fs. g = SObj a fs \<longrightarrow> v = Ref a) \<and>
             extra_at s' x exs \<and> cache s' = cache s \<and>
             (\<forall>c < next_addr s. c \<notin> set (objs g) \<longrightarrow> cells s' c = cells s c) \<and>
             (\<forall>f m args r u kp. call m f args s' = Inr (Ref r, u) \<longrightarrow>
                cells u r = Some (Object kp) \<longrightarrow> distinct (map fst kp) \<longrightarrow>
                cells u x = cells s x \<longrightarrow>
                (\<exists>w u'. call (Suc m) (Wrapper f x) args s' = Inr (w, u') \<and>
                   object_at u' w = Some (map_of kp ++ map_of (rootf exs))))"
proof -
  have "sound n x exs" by (rule sound_all)
  then have "holds s g \<longrightarrow> distinct (objs g) \<longrightarrow> extra_at s x exs \<longrightarrow>
     x \<notin> set (objs g) \<longrightarrow> depth (injected x (erasef exs) (erase g)) < n \<longrightarrow>
     (\<exists>g' s'. process n x (root g) s = Inr (root g', s') \<and> outcome x (erasef exs) s g s' g')"
    unfolding sound_def by (elim allE)
  with g x n obtain g' s' where run: "process n x (root g) s = Inr (root g', s')"
    and out: "outcome x (erasef exs) s g s' g'" by blast
  from out have h: "holds s' g'" and d: "distinct (objs g')"
    and e: "erase g' = injected x (erasef exs) (erase g)" and f: "frame s (set (objs g)) s'"
    and r: "\<forall>a fs. g = SObj a fs \<longrightarrow> root g' = Ref a"
    unfolding outcome_def by simp_all
  have ext: "extra_at s' x exs" using x(1) f x(2) by (rule extra_at_frame)
  from x(1) have cx: "cells s x = Some (Object (rootf exs))" and "distinct (map fst exs)"
    by (simp_all add: extra_at_def)
  then have dx: "distinct (map fst (rootf exs))" by (simp only: rootf_names)
  have wrap: "\<exists>w u'. call (Suc m) (Wrapper f x) args s' = Inr (w, u') \<and>
      object_at u' w = Some (map_of kp ++ map_of (rootf exs))"
    if c: "call m f args s' = Inr (Ref r, u)" and k: "cells u r = Some (Object kp)" "distinct (map fst kp)"
      and u: "cells u x = cells s x" for f m args r u kp
  proof -
    from u cx have "cells u x = Some (Object (rootf exs))" by simp
    with c k show ?thesis using dx by (rule call_Wrapper)
  qed
  have fc: "cells s' c = cells s c" if "c < next_addr s" "c \<notin> set (objs g)" for c
    using f that by (rule frame_cell)
  from f have ca: "cache s' = cache s" by (simp add: frame_def)
  have run': "inyectKeysToQueries n (root g) x s = Inr (root g', s')"
    using run by (simp only: inyectKeysToQueries_def)
  show ?thesis
  proof (rule exI [of _ g'], simp only: run' sum.case prod.case, intro conjI allI impI)
    show "root g' = root g'" ..
    show "holds s' g'" by (rule h)
    show "distinct (objs g')" by (rule d)
    show "erase g' = injected x (erasef exs) (erase g)" by (rule e)
    show "root g' = Ref a" if "g = SObj a fs" for a fs using that r by simp
    show "extra_at s' x exs" by (rule ext)
    show "cache s' = cache s" by (rule ca)
    show "cells s' c = cells s c" if "c < next_addr s" "c \<notin> set (objs g)" for c
      using that by (rule fc)
    show "\<exists>w u'. call (Suc m) (Wrapper f x) args s' = Inr (w, u') \<and>
        object_at u' w = Some (map_of kp ++ map_of (rootf exs))"
      if "call m f args s' = Inr (Ref r, u)" "cells u r = Some (Object kp)" "distinct (map fst kp)"
        "cells u x = cells s x" for f m args r u kp
      using that by (rule wrap)
  qed
qed

theorem inject_structure_witness:
  "holds demo_nested demo_group \<and> distinct (objs demo_group) \<and>
   extra_at demo_nested 8 demo_extra \<and> 8 \<notin> set (objs demo_group) \<and>
   depth (injected 8 (erasef demo_extra) (erase demo_group)) < Suc (Suc (Suc (Suc (Suc (Suc 0))))) \<and>
   (case inyectKeysToQueries (Suc (Suc (Suc (Suc (Suc (Suc 0)))))) (root demo_group) 8 demo_nested of
      Inl e \<Rightarrow> False
    | Inr (v, s') \<Rightarrow> v = Ref 6 \<and>
        get_path s' v [''ops'', ''0'', ''queryKey'', ''entity''] = Inr (Prim (Str ''items'')) \<and>
        get_path s' v [''ops'', ''0'', ''queryKey'', ''auth''] = Inr (Prim (Bool True)) \<and>
        get_path s' v [''ops'', ''0'', ''queryKey'', ''features'', ''0''] = Inr (Prim (Str ''beta-ui'')) \<and>
        get_path s' v [''ops'', ''0'', ''invalidates'', ''0'', ''entity''] = Inr (Prim (Str ''items'')) \<and>
        get_path s' v [''ops'', ''0'', ''invalidates'', ''0'', ''auth''] = Inr (Prim Undefined) \<and>
        get_path s' v [''detail'', ''queryKey''] = Inr (Fn (Wrapper (DetailKey ''items'') 8)))"
  using inject_structure [of demo_nested demo_group 8 demo_extra "Suc (Suc (Suc (Suc (Suc (Suc 0)))))"]
  by (simp add: demo_nested_def demo_group_def demo_extra_def extra_at_def field_objs_def
      inyectKeysToQueries_def process.simps(2) numbered_def indexed_def
      index_name_0 spread_def assign_def stamped_def
      get_path_def get_prop_def own_props_def has_own_def set_prop_def alloc_def)

section \<open>An extra mapping that owns a queryKey\<close>

text \<open>
  The loop over the properties of an object walks \<^verbatim>\<open>queryKey\<close> as well, after it
  was rewritten. When the extra mapping owns a \<^verbatim>\<open>queryKey\<close> property that holds an
  object, every merged key owns \<^verbatim>\<open>queryKey\<close> again, and is rewritten and walked in
  its turn.
\<close>

lemma leaf_fieldsD: "leaf_fields ps \<Longrightarrow> map_of ps p = Some v \<Longrightarrow> p \<noteq> ''queryKey'' \<Longrightarrow> \<not> is_ref v"
  by (auto simp: leaf_fields_def list_all_iff dest: map_of_SomeD)

lemma leaf_fields_update: "leaf_fields ps \<Longrightarrow> leaf_fields (AList.update ''queryKey'' v ps)"
  unfolding leaf_fields_def by (rule list_all_update) simp_all

lemma leaf_fields_spread: "leaf_fields a \<Longrightarrow> leaf_fields b \<Longrightarrow> leaf_fields (spread a b)"
  using set_spread [of a b] by (auto simp: leaf_fields_def list_all_iff)

lemma key_objectD:
  assumes "key_object s k"
  obtains kp where "cells s k = Some (Object kp)" "distinct (map fst kp)" "leaf_fields kp"
  using assms by (auto simp: key_object_def split: option.splits obj.splits)

lemma keyed_opD:
  assumes "keyed_op s a"
  obtains ps k where "a < next_addr s" "cells s a = Some (Object ps)" "leaf_fields ps"
    "map_of ps ''queryKey'' = Some (Ref k)" "key_object s k"
proof -
  from assms obtain ps where ps: "a < next_addr s" "cells s a = Some (Object ps)" "leaf_fields ps"
    and c: "case map_of ps ''queryKey'' of Some (Ref k) \<Rightarrow> key_object s k | _ \<Rightarrow> False"
    by (auto simp: keyed_op_def split: option.splits obj.splits)
  show ?thesis
  proof (cases "map_of ps ''queryKey''" rule: queryKey_cases)
    case (static k)
    with c have "key_object s k" by simp
    with ps static show ?thesis by (rule that)
  next
    case (dynamic f)
    with c show ?thesis by simp
  next
    case none
    with c show ?thesis by simp
  next
    case (prim p)
    with c show ?thesis by simp
  qed
qed

lemma process_leaf: "\<not> is_ref v \<Longrightarrow> process n x v t = Inr (v, t) \<or> process n x v t = Inl OutOfFuel"
  by (cases n) (simp_all add: process_not_ref)

lemma for_in_spin:
  assumes c: "cells t a = Some (Object ps)"
    and leaf: "\<And>v. \<not> is_ref v \<Longrightarrow> f v t = Inr (v, t) \<or> f v t = Inl OutOfFuel"
    and key: "map_of ps ''queryKey'' = Some (Ref m)" "f (Ref m) t = Inl OutOfFuel"
    and lf: "leaf_fields ps"
  shows "''queryKey'' \<in> set names \<Longrightarrow> for_in f a names t = Inl OutOfFuel"
proof (induction names)
  case Nil
  then show ?case by simp
next
  case (Cons name names)
  show ?case
  proof (cases "map_of ps name")
    case None
    with key(1) have "name \<noteq> ''queryKey''" by auto
    with Cons have "for_in f a names t = Inl OutOfFuel" by simp
    with None c show ?thesis by (simp add: has_own_def own_props_def)
  next
    case (Some v)
    show ?thesis
    proof (cases "name = ''queryKey''")
      case True
      with Some key c show ?thesis by (simp add: has_own_def own_props_def get_prop_def)
    next
      case False
      with Cons have rest: "for_in f a names t = Inl OutOfFuel" by simp
      from leaf_fieldsD [OF lf Some False] have "f v t = Inr (v, t) \<or> f v t = Inl OutOfFuel"
        by (rule leaf)
      then show ?thesis
      proof
        assume "f v t = Inr (v, t)"
        with Some c rest show ?thesis
          by (simp add: has_own_def own_props_def get_prop_def set_prop_same)
      next
        assume "f v t = Inl OutOfFuel"
        with Some c show ?thesis by (simp add: has_own_def own_props_def get_prop_def)
      qed
    qed
  qed
qed

text \<open>
  With such an extra mapping the walk of an object that holds a key does not end: the
  merged key owns \<^verbatim>\<open>queryKey\<close> again, the loop over the properties of the object
  walks the merged key, and so on. Whatever the fuel, it is used up.
\<close>

lemma process_keyed:
  "keyed_extra s x q \<Longrightarrow> keyed_op s a \<Longrightarrow> a \<noteq> x \<Longrightarrow> a \<noteq> q \<Longrightarrow> process n x (Ref a) s = Inl OutOfFuel"
proof (induction n arbitrary: a s)
  case 0
  show ?case by simp
next
  case (Suc n)
  from Suc.prems(2) obtain ps k where a: "a < next_addr s" "cells s a = Some (Object ps)"
      "leaf_fields ps" "map_of ps ''queryKey'' = Some (Ref k)" "key_object s k"
    by (rule keyed_opD)
  from a(5) obtain kp where k: "cells s k = Some (Object kp)" "distinct (map fst kp)" "leaf_fields kp"
    by (rule key_objectD)
  from Suc.prems(1) have x: "x < next_addr s" "q < next_addr s" "key_object s x" "key_object s q"
    by (simp_all add: keyed_extra_def)
  from x(3) obtain ex where ex: "cells s x = Some (Object ex)" "distinct (map fst ex)" "leaf_fields ex"
    by (rule key_objectD)
  from Suc.prems(1) ex(1) have xq: "map_of ex ''queryKey'' = Some (Ref q)"
    by (simp add: keyed_extra_def own_props_def)
  from x(4) obtain qp where q: "cells s q = Some (Object qp)" "distinct (map fst qp)" "leaf_fields qp"
    by (rule key_objectD)
  define m where "m = next_addr s"
  define M where "M = spread kp ex"
  define t where "t = set_prop a ''queryKey'' (Ref m) (snd (alloc (Object M) s))"
  have ne: "m \<noteq> a" "m \<noteq> x" "m \<noteq> q" using a(1) x(1,2) by (simp_all add: m_def)
  have ta: "cells t a = Some (Object (AList.update ''queryKey'' (Ref m) ps))"
    using a(2) ne by (simp add: t_def set_prop_def alloc_def m_def)
  have tm: "cells t m = Some (Object M)"
    using a(2) ne by (simp add: t_def set_prop_def alloc_def m_def)
  have other: "c \<noteq> a \<Longrightarrow> c \<noteq> m \<Longrightarrow> cells t c = cells s c" for c
    using a(2) ne by (simp add: t_def set_prop_def alloc_def m_def)
  have tn: "next_addr t = Suc m"
    using a(2) ne by (simp add: t_def set_prop_def alloc_def m_def)
  have tx: "cells t x = Some (Object ex)" using other [of x] Suc.prems(3) ne ex(1) by simp
  have tq: "cells t q = Some (Object qp)" using other [of q] Suc.prems(4) ne q(1) by simp
  have Mq: "map_of M ''queryKey'' = Some (Ref q)"
    by (simp add: M_def map_of_spread k(2) ex(2) xq)
  have extra: "keyed_extra t x q"
    using x(1,2) tx tq ex q xq by (simp add: keyed_extra_def key_object_def own_props_def tn m_def)
  have op: "keyed_op t m"
    using tm tq q Mq leaf_fields_spread [OF k(3) ex(3)]
    by (simp add: keyed_op_def key_object_def tn M_def)
  have spin: "process n x (Ref m) t = Inl OutOfFuel"
    using extra op ne(2,3) by (rule Suc.IH)
  have loop: "for_in (process n x) a (map fst ps) t = Inl OutOfFuel"
  proof (rule for_in_spin [where ps = "AList.update ''queryKey'' (Ref m) ps" and m = m])
    show "cells t a = Some (Object (AList.update ''queryKey'' (Ref m) ps))" by (rule ta)
    show "process n x (Ref m) t = Inl OutOfFuel" by (rule spin)
    show "process n x v t = Inr (v, t) \<or> process n x v t = Inl OutOfFuel" if "\<not> is_ref v" for v
      using that by (rule process_leaf)
    show "map_of (AList.update ''queryKey'' (Ref m) ps) ''queryKey'' = Some (Ref m)"
      by (simp add: update_conv')
    show "leaf_fields (AList.update ''queryKey'' (Ref m) ps)"
      using a(3) by (rule leaf_fields_update)
    from map_of_SomeD [OF a(4)] show "''queryKey'' \<in> set (map fst ps)"
      by force
  qed
  have "process (Suc n) x (Ref a) s =
      (case for_in (process n x) a (map fst ps) t of Inl e \<Rightarrow> Inl e | Inr s2 \<Rightarrow> Inr (Ref a, s2))"
    using a(2,4) k(1) ex(1)
    by (simp add: process.simps(2) t_def M_def m_def own_props_def alloc_def)
  with loop show ?case by simp
qed

text \<open>
  Claim C4, at an extra mapping that owns a \<^verbatim>\<open>queryKey\<close> property. The group of
  \<^verbatim>\<open>"accounts"\<close> is injected with \<^verbatim>\<open>{queryKey: {x: 1}}\<close>. The claim gives the
  static key \<^verbatim>\<open>{entity: "accounts", queryKey: {x: 1}}\<close> under \<^verbatim>\<open>all.queryKey\<close>;
  the injector returns no group, however deep the recursion is allowed to go.
\<close>

theorem inject_keyed_extra_diverges:
  "(case alloc (Object [(''x'', Prim (Number 1))]) empty_state of (q, s1) \<Rightarrow>
    case alloc (Object [(''queryKey'', Ref q)]) s1 of (extra, s2) \<Rightarrow>
    case createQueryGroupCRUD ''accounts'' s2 of (g, s3) \<Rightarrow>
      inyectKeysToQueries n g extra s3) = Inl OutOfFuel"
proof (cases n)
  case 0
  then show ?thesis
    by (simp add: createQueryGroupCRUD_def alloc_def inyectKeysToQueries_def)
next
  case (Suc k)
  define s3 where "s3 = snd (createQueryGroupCRUD ''accounts''
      (snd (alloc (Object [(''queryKey'', Ref 0)]) (snd (alloc (Object [(''x'', Prim (Number 1))]) empty_state)))))"
  have "keyed_extra s3 (Suc 0) 0" "keyed_op s3 (Suc (Suc (Suc 0)))"
    by (simp_all add: s3_def createQueryGroupCRUD_def alloc_def empty_state_def keyed_extra_def
        keyed_op_def key_object_def leaf_fields_def own_props_def is_ref_def)
  then have "process k (Suc 0) (Ref (Suc (Suc (Suc 0)))) s3 = Inl OutOfFuel"
    by (rule process_keyed) simp_all
  then show ?thesis
    unfolding Suc s3_def
    by (simp add: createQueryGroupCRUD_def alloc_def empty_state_def inyectKeysToQueries_def
        process.simps(2) has_own_def own_props_def get_prop_def)
qed


end
